theory Spec2Isabelle
  imports Main "HOL-Library.Monad_Syntax"
begin

unbundle bit_operations_syntax

section \<open>C integers\<close>

text \<open>
  The C type \<^verbatim>\<open>int\<close> is 32 bits wide and \<^verbatim>\<open>intptr_t\<close> (also the width of a pointer) is
  64 bits wide, as on x86-64 Linux. A C integer is modelled as a HOL \<^typ>\<open>int\<close>; every
  arithmetic operation that can leave the range is wrapped to the width of its type with
  \<^const>\<open>signed_take_bit\<close>, which is what the machine does with a signed overflow and with
  the conversion from \<^verbatim>\<open>intptr_t\<close> to \<^verbatim>\<open>int\<close>. The right shift of a signed value is
  arithmetic (\<^const>\<open>drop_bit\<close> on \<^typ>\<open>int\<close>).
\<close>

definition int32 :: "int \<Rightarrow> int" where
  "int32 x = signed_take_bit 31 x"

definition intptr :: "int \<Rightarrow> int" where
  "intptr x = signed_take_bit 63 x"

section \<open>Hash functions\<close>

text \<open>
  \<^verbatim>\<open>hashstr\<close> reads the bytes of a null terminated string; the string is modelled by its
  bytes before the terminator. \<^verbatim>\<open>char\<close> is signed, so a byte above 127 is added as a
  negative number.
\<close>

definition schar :: "char \<Rightarrow> int" where
  "schar c = signed_take_bit 7 (of_char c)"

fun hashstr_loop :: "string \<Rightarrow> int \<Rightarrow> int" where
  "hashstr_loop [] hash = hash"
| "hashstr_loop (c # key) hash =
     (let hash = intptr (hash + schar c);
          hash = intptr (hash + intptr (push_bit 10 hash));
          hash = hash XOR drop_bit 6 hash
      in hashstr_loop key hash)"

definition hashstr :: "string \<Rightarrow> int \<Rightarrow> int" where
  "hashstr key mapsize =
     (let hash = hashstr_loop key 0;
          hash = intptr (hash + intptr (push_bit 3 hash));
          hash = hash XOR drop_bit 11 hash;
          hash = intptr (hash + intptr (push_bit 15 hash));
          mask = int32 (mapsize - 1)
      in hash AND mask)"

definition hashint :: "int \<Rightarrow> int \<Rightarrow> int" where
  "hashint element mapsize =
     (let hash = element;
          hash = intptr (hash + intptr (push_bit 10 hash));
          hash = hash XOR drop_bit 6 hash;
          hash = intptr (hash + intptr (push_bit 3 hash));
          hash = hash XOR drop_bit 11 hash;
          hash = intptr (hash + intptr (push_bit 15 hash));
          mask = int32 (mapsize - 1)
      in hash AND mask)"

section \<open>The table\<close>

text \<open>
  A key slot holds a machine word: the integer itself for \<^verbatim>\<open>intmap\<close> and \<^verbatim>\<open>intset\<close>, the
  address of the string for \<^verbatim>\<open>hashmap\<close> and \<^verbatim>\<open>hashset\<close>. A value is an address, \<open>0\<close> the
  null pointer. An array field is \<open>None\<close> when the pointer is null and \<open>Some block\<close> when it
  points to a block of that content. \<^verbatim>\<open>size\<close> and \<^verbatim>\<open>values\<close> are written \<open>size'\<close> and
  \<open>values'\<close>; the three names of the key union are one field.
\<close>

type_synonym generalmapHash = "int \<Rightarrow> int \<Rightarrow> int"
type_synonym generalmapCmp = "int \<Rightarrow> int \<Rightarrow> int"
type_synonym generalmapDup = "int \<Rightarrow> int"
type_synonym calloc_t = "int \<Rightarrow> int list option"

record generalmap =
  size' :: int
  elements :: int
  keysInt :: "int list option"
  hashes :: "int list option"
  values' :: "int list option"

text \<open>
  The allocator of the C library, for as long as memory lasts: a zero-filled block of the
  requested number of elements. A negative count, converted to \<^verbatim>\<open>size_t\<close>, is a request
  that cannot be served.
\<close>

definition libc_calloc :: calloc_t where
  "libc_calloc n = (if 0 \<le> n then Some (replicate (nat n) 0) else None)"

text \<open>\<^verbatim>\<open>free\<close> releases the block a pointer refers to and does nothing on the null pointer.
  Its result here is the list of blocks released.\<close>

definition free :: "int list option \<Rightarrow> int list list" where
  "free p = (case p of None \<Rightarrow> [] | Some block \<Rightarrow> [block])"

text \<open>
  Reading and writing \<open>a[i]\<close>. An access through the null pointer or outside the block has
  no defined result in C: it is \<open>None\<close> here, as is a failed \<^verbatim>\<open>assert\<close> below.
\<close>

definition rd :: "int list option \<Rightarrow> int \<Rightarrow> int option" where
  "rd a i =
     (case a of
        None \<Rightarrow> None
      | Some xs \<Rightarrow> if 0 \<le> i \<and> i < int (length xs) then Some (xs ! nat i) else None)"

definition wr :: "int list option \<Rightarrow> int \<Rightarrow> int \<Rightarrow> int list option option" where
  "wr a i v =
     (case a of
        None \<Rightarrow> None
      | Some xs \<Rightarrow> if 0 \<le> i \<and> i < int (length xs) then Some (Some (xs[nat i := v])) else None)"

definition mapNull :: "generalmap \<Rightarrow> bool" where
  "mapNull m = (elements m = 0)"

definition pow2ize :: "int \<Rightarrow> int" where
  "pow2ize x0 =
     (let x = int32 (x0 - 1);
          x = x OR drop_bit 1 x;
          x = x OR drop_bit 2 x;
          x = x OR drop_bit 4 x;
          x = x OR drop_bit 8 x;
          x = x OR drop_bit 16 x;
          x = x OR drop_bit 16 (drop_bit 16 x)
      in int32 (x + 1))"

definition generalmapInit :: "int \<Rightarrow> calloc_t \<Rightarrow> bool \<Rightarrow> generalmap" where
  "generalmapInit size0 calloc hashesF =
     (let size1 = pow2ize size0
      in \<lparr>size' = size1, elements = 0, keysInt = calloc size1,
          hashes = (if hashesF then calloc size1 else None),
          values' = calloc size1\<rparr>)"

text \<open>\<^verbatim>\<open>generalmapFree\<close> returns the table as it leaves it, with the blocks it released.\<close>

definition generalmapFree :: "generalmap \<Rightarrow> bool \<Rightarrow> generalmap \<times> int list list" where
  "generalmapFree m hashesF =
     (let freed = free (keysInt m) @ (if hashesF then free (hashes m) else []) @ free (values' m)
      in (m\<lparr>keysInt := None, hashes := None, values' := None\<rparr>, freed))"

definition generalmapIsMatch ::
  "generalmap \<Rightarrow> int \<Rightarrow> int \<Rightarrow> int \<Rightarrow> generalmapCmp option \<Rightarrow> bool option" where
  "generalmapIsMatch m index key hash cmp =
     (case cmp of
        Some c \<Rightarrow> do {
          h \<leftarrow> rd (hashes m) index;
          if h = hash then do { k \<leftarrow> rd (keysInt m) index; Some (c k key = 0) }
          else Some False }
      | None \<Rightarrow> do { k \<leftarrow> rd (keysInt m) index; Some (k = key) })"

text \<open>
  One \<^verbatim>\<open>for\<close> loop of \<^verbatim>\<open>generalmapFind\<close>, from \<open>index\<close> up to \<open>bound\<close>: \<open>Some (Some i)\<close>
  when the loop returns \<open>i\<close>, \<open>Some None\<close> when it runs to its end.
\<close>

function generalmapFind_loop ::
  "generalmap \<Rightarrow> int \<Rightarrow> int \<Rightarrow> generalmapCmp option \<Rightarrow> int \<Rightarrow> int \<Rightarrow> int option option" where
  "generalmapFind_loop m key hash cmp index bound =
     (if index < bound then do {
        v \<leftarrow> rd (values' m) index;
        stop \<leftarrow> (if v = 0 then Some True else generalmapIsMatch m index key hash cmp);
        if stop then Some (Some index)
        else generalmapFind_loop m key hash cmp (index + 1) bound }
      else Some None)"
  by pat_completeness auto
termination
  by (relation "measure (\<lambda>(m, key, hash, cmp, index, bound). nat (bound - index))") auto

definition generalmapFind ::
  "generalmap \<Rightarrow> int \<Rightarrow> int \<Rightarrow> generalmapCmp option \<Rightarrow> int option" where
  "generalmapFind m key hash cmp = do {
     first \<leftarrow> generalmapFind_loop m key hash cmp hash (size' m);
     case first of
       Some index \<Rightarrow> Some index
     | None \<Rightarrow> do {
         second \<leftarrow> generalmapFind_loop m key hash cmp 0 hash;
         case second of
           Some index \<Rightarrow> Some index
         | None \<Rightarrow> Some hash } }"

text \<open>
  \<^verbatim>\<open>generalmapAdd\<close> after its growth step: the slot is looked up and written. The set
  sentinel \<^verbatim>\<open>(void*) true\<close> is the address \<open>1\<close>.
\<close>

definition generalmapAdd_slot ::
  "generalmap \<Rightarrow> int \<Rightarrow> int \<Rightarrow> generalmapHash \<Rightarrow> generalmapCmp option \<Rightarrow> bool
     \<Rightarrow> (bool \<times> generalmap) option" where
  "generalmapAdd_slot m key value hashf cmp valuesF = do {
     let hash = int32 (hashf key (size' m));
     index \<leftarrow> generalmapFind m key hash cmp;
     v \<leftarrow> rd (values' m) index;
     (present, m) \<leftarrow>
       (if v = 0 then do {
          ks \<leftarrow> wr (keysInt m) index key;
          let m = m\<lparr>keysInt := ks, elements := int32 (elements m + 1)\<rparr>;
          if cmp \<noteq> None then do {
            hs \<leftarrow> wr (hashes m) index hash;
            Some (False, m\<lparr>hashes := hs\<rparr>) }
          else Some (False, m) }
        else do {
          ok \<leftarrow> generalmapIsMatch m index key hash cmp;
          if ok then Some (True, m) else None });
     vs \<leftarrow> wr (values' m) index (if valuesF then value else 1);
     Some (present, m\<lparr>values' := vs\<rparr>) }"

text \<open>
  \<^verbatim>\<open>generalmapAdd\<close> and the loop of \<^verbatim>\<open>generalmapMerge\<close> call each other: growth merges
  the table into a new one of twice the size, and the merge adds slot after slot.
\<close>

function generalmapAdd ::
  "generalmap \<Rightarrow> int \<Rightarrow> int \<Rightarrow> generalmapHash \<Rightarrow> generalmapCmp option \<Rightarrow> bool
     \<Rightarrow> (bool \<times> generalmap) option"
and generalmapMerge_loop ::
  "generalmap \<Rightarrow> generalmap \<Rightarrow> generalmapHash \<Rightarrow> generalmapCmp option
     \<Rightarrow> generalmapDup option \<Rightarrow> bool \<Rightarrow> int \<Rightarrow> generalmap option" where
  "generalmapAdd m key value hashf cmp valuesF = do {
     m \<leftarrow> (if int32 (int32 (elements m * 2) + 1) \<ge> size' m then do {
             let newmap = generalmapInit (int32 (size' m * 2)) libc_calloc (cmp \<noteq> None);
             newmap \<leftarrow> generalmapMerge_loop newmap m hashf cmp None valuesF 0;
             let (_, _) = generalmapFree m (cmp \<noteq> None);
             Some newmap }
           else Some m);
     generalmapAdd_slot m key value hashf cmp valuesF }"
| "generalmapMerge_loop dest src hashf cmp dup valuesF index =
     (if index < size' src then do {
        k \<leftarrow> rd (keysInt src) index;
        if k = 0 then generalmapMerge_loop dest src hashf cmp dup valuesF (index + 1)
        else do {
          let key = (case dup of Some d \<Rightarrow> d k | None \<Rightarrow> k);
          v \<leftarrow> (if valuesF then rd (values' src) index else Some 0);
          (_, dest) \<leftarrow> generalmapAdd dest key v hashf cmp valuesF;
          generalmapMerge_loop dest src hashf cmp dup valuesF (index + 1) } }
      else Some dest)"
  by pat_completeness auto

section \<open>Rounding up to a power of two\<close>

text \<open>
  The shift cascade of \<^verbatim>\<open>pow2ize\<close> sets every bit below the highest set bit. The last
  step shifts by 32 in two halves.
\<close>

definition fill :: "int \<Rightarrow> int" where
  "fill x0 = (let x = x0; x = x OR drop_bit 1 x;
          x = x OR drop_bit 2 x;
          x = x OR drop_bit 4 x;
          x = x OR drop_bit 8 x;
          x = x OR drop_bit 16 x;
          x = x OR drop_bit 16 (drop_bit 16 x) in x)"

lemma or_shift_bits:
  fixes x y :: int
  assumes "\<And>n. bit y n \<longleftrightarrow> (\<exists>j<m. bit x (n + j))"
  shows "bit (y OR drop_bit m y) n \<longleftrightarrow> (\<exists>j<2*m. bit x (n + j))"
proof -
  have "bit (y OR drop_bit m y) n \<longleftrightarrow> (\<exists>j<m. bit x (n + j)) \<or> (\<exists>j<m. bit x (m + n + j))"
    by (simp add: bit_or_iff bit_drop_bit_eq assms)
  also have "\<dots> \<longleftrightarrow> (\<exists>j<2*m. bit x (n + j))"
  proof
    assume "(\<exists>j<m. bit x (n + j)) \<or> (\<exists>j<m. bit x (m + n + j))"
    then show "\<exists>j<2*m. bit x (n + j)"
    proof
      assume "\<exists>j<m. bit x (n + j)"
      then obtain j where "j < m" "bit x (n + j)" by blast
      then have "j < 2 * m" "bit x (n + j)" by simp_all
      then show ?thesis by blast
    next
      assume "\<exists>j<m. bit x (m + n + j)"
      then obtain j where "j < m" "bit x (m + n + j)" by blast
      then have "m + j < 2 * m" "bit x (n + (m + j))" by (simp_all add: ac_simps)
      then show ?thesis by blast
    qed
  next
    assume "\<exists>j<2*m. bit x (n + j)"
    then obtain j where j: "j < 2 * m" "bit x (n + j)" by blast
    show "(\<exists>j<m. bit x (n + j)) \<or> (\<exists>j<m. bit x (m + n + j))"
    proof (cases "j < m")
      case True with j show ?thesis by blast
    next
      case False
      with j have "j - m < m" "bit x (m + n + (j - m))" by (simp_all add: ac_simps)
      then show ?thesis by blast
    qed
  qed
  finally show ?thesis .
qed

lemma bit_fill: "bit (fill x) n \<longleftrightarrow> (\<exists>j<64. bit x (n + j))"
proof -
  define x1 where "x1 = x OR drop_bit 1 x"
  define x2 where "x2 = x1 OR drop_bit 2 x1"
  define x3 where "x3 = x2 OR drop_bit 4 x2"
  define x4 where "x4 = x3 OR drop_bit 8 x3"
  define x5 where "x5 = x4 OR drop_bit 16 x4"
  define x6 where "x6 = x5 OR drop_bit 32 x5"
  have b0: "\<And>n. bit x n \<longleftrightarrow> (\<exists>j<1. bit x (n + j))" by simp
  have b1: "\<And>n. bit x1 n \<longleftrightarrow> (\<exists>j<2. bit x (n + j))"
    unfolding x1_def using or_shift_bits[of x 1 x, OF b0] by simp
  have b2: "\<And>n. bit x2 n \<longleftrightarrow> (\<exists>j<4. bit x (n + j))"
    unfolding x2_def using or_shift_bits[of x1 2 x, OF b1] by simp
  have b3: "\<And>n. bit x3 n \<longleftrightarrow> (\<exists>j<8. bit x (n + j))"
    unfolding x3_def using or_shift_bits[of x2 4 x, OF b2] by simp
  have b4: "\<And>n. bit x4 n \<longleftrightarrow> (\<exists>j<16. bit x (n + j))"
    unfolding x4_def using or_shift_bits[of x3 8 x, OF b3] by simp
  have b5: "\<And>n. bit x5 n \<longleftrightarrow> (\<exists>j<32. bit x (n + j))"
    unfolding x5_def using or_shift_bits[of x4 16 x, OF b4] by simp
  have b6: "\<And>n. bit x6 n \<longleftrightarrow> (\<exists>j<64. bit x (n + j))"
    unfolding x6_def using or_shift_bits[of x5 32 x, OF b5] by simp
  have "fill x = x6"
    by (simp add: fill_def Let_def x1_def x2_def x3_def x4_def x5_def x6_def drop_bit_drop_bit)
  then show ?thesis using b6 by simp
qed

lemma pow2ize_fill: "pow2ize x = int32 (fill (int32 (x - 1)) + 1)"
  by (simp add: pow2ize_def fill_def Let_def)

lemma int32_bits: "bit (int32 w) n \<longleftrightarrow> bit w (min 31 n)"
  by (simp add: int32_def bit_signed_take_bit_iff)

lemma int32_range: "- (2 ^ 31) \<le> int32 w \<and> int32 w < 2 ^ 31"
  unfolding int32_def using signed_take_bit_int_greater_eq_minus_exp[of 31 w] signed_take_bit_int_less_exp[of 31 w] by simp

lemma int32_id: "- (2 ^ 31) \<le> w \<Longrightarrow> w < 2 ^ 31 \<Longrightarrow> int32 w = w"
  unfolding int32_def by (rule signed_take_bit_int_eq_self) simp_all

lemma int32_0 [simp]: "int32 0 = 0"
  by (simp add: int32_def)

lemma int32_exp31: "int32 2147483648 = - 2147483648"
  by (simp add: int32_def)

lemma int32_exp: "k \<le> 30 \<Longrightarrow> int32 (2 ^ k) = 2 ^ k"
proof -
  assume "k \<le> 30"
  then have a: "(2::int) ^ k \<le> 2 ^ 30" by (intro power_increasing) simp_all
  have b: "- (2 ^ 31) \<le> (2::int) ^ k" by (rule order_trans[of _ 0]) simp_all
  have c: "(2::int) ^ k < 2 ^ 31" using a by simp
  show ?thesis using b c by (rule int32_id)
qed

lemma fill_neg:
  assumes "z < 0" "- (2 ^ 31) \<le> z"
  shows "fill z = - 1"
proof (rule bit_eqI)
  fix n
  have z: "z = int32 z" using assms by (simp add: int32_id)
  have "bit z 31" using assms z signed_take_bit_negative_iff[of 31 z] by (simp add: int32_def)
  then have "bit z (n + 31)" using int32_bits[of z "n + 31"] z by simp
  then have "\<exists>j<64. bit z (n + j)" by (intro exI[of _ 31]) simp
  then show "bit (fill z) n \<longleftrightarrow> bit (- 1 :: int) n" by (simp add: bit_fill)
qed

lemma fill_nonneg:
  assumes "0 \<le> z" "z < 2 ^ k" "k \<le> 64" "k = 0 \<or> 2 ^ (k - 1) \<le> z"
  shows "fill z = mask k"
proof (rule bit_eqI)
  fix n
  have tz: "take_bit k z = z" using assms by (simp add: take_bit_int_eq_self)
  have hi: "\<not> bit z m" if "k \<le> m" for m
    using bit_take_bit_iff[of k z m] tz that by simp
  have top: "bit z (k - 1)" if "0 < k"
  proof (rule ccontr)
    assume nb: "\<not> bit z (k - 1)"
    from that obtain k' where k': "k = Suc k'" by (cases k) auto
    have "take_bit (Suc k') z = take_bit k' z"
      using nb k' by (simp add: take_bit_Suc_from_most)
    then have "z = take_bit k' z" using tz k' by simp
    then have "z < 2 ^ k'" using take_bit_int_less_exp[of k' z] by simp
    with assms(4) k' show False by simp
  qed
  show "bit (fill z) n \<longleftrightarrow> bit (mask k :: int) n"
  proof
    assume "bit (fill z) n"
    then obtain j where "j < 64" "bit z (n + j)" by (auto simp: bit_fill)
    then have "n + j < k" using hi[of "n + j"] by (cases "n + j < k") auto
    then show "bit (mask k :: int) n" by (simp add: bit_mask_iff)
  next
    assume "bit (mask k :: int) n"
    then have nk: "n < k" by (simp add: bit_mask_iff)
    then have "bit z (n + (k - 1 - n))" using top by simp
    moreover have "k - 1 - n < 64" using assms(3) nk by simp
    ultimately show "bit (fill z) n" unfolding bit_fill by blast
  qed
qed

lemma exp_bracket:
  fixes z :: int
  assumes "0 \<le> z" "z < 2 ^ N"
  shows "\<exists>k\<le>N. z < 2 ^ k \<and> (k = 0 \<or> 2 ^ (k - 1) \<le> z)"
proof -
  define k where "k = (LEAST k. z < 2 ^ k)"
  have a: "z < 2 ^ k" unfolding k_def using assms(2) by (rule LeastI)
  have b: "k \<le> N" unfolding k_def using assms(2) by (rule Least_le)
  have c: "k = 0 \<or> 2 ^ (k - 1) \<le> z"
  proof (cases k)
    case 0 then show ?thesis by simp
  next
    case (Suc k')
    have "\<not> z < 2 ^ k'"
    proof
      assume "z < 2 ^ k'"
      then have "k \<le> k'" unfolding k_def by (rule Least_le)
      with Suc show False by simp
    qed
    with Suc show ?thesis by simp
  qed
  from a b c show ?thesis by blast
qed

lemma pow2ize_cases:
  "pow2ize x = 0 \<or> pow2ize x = - (2 ^ 31) \<or> (\<exists>k\<le>30. pow2ize x = 2 ^ k)"
proof -
  define z where "z = int32 (x - 1)"
  have zr: "- (2 ^ 31) \<le> z" "z < 2 ^ 31" using int32_range[of "x - 1"] by (simp_all add: z_def)
  show ?thesis
  proof (cases "z < 0")
    case True
    then have "fill z = - 1" using zr by (simp add: fill_neg)
    then have "pow2ize x = 0" unfolding pow2ize_fill z_def[symmetric] by simp
    then show ?thesis by simp
  next
    case False
    then obtain k where k: "k \<le> 31" "z < 2 ^ k" "k = 0 \<or> 2 ^ (k - 1) \<le> z"
      using exp_bracket[of z 31] zr by auto
    then have f: "fill z = mask k" using False by (intro fill_nonneg) simp_all
    have p: "pow2ize x = int32 (2 ^ k)" by (simp add: pow2ize_fill z_def[symmetric] f mask_eq_exp_minus_1)
    show ?thesis
    proof (cases "k = 31")
      case True
      then show ?thesis using p by (simp add: int32_exp31)
    next
      case False
      then have k30: "k \<le> 30" using k by simp
      then have "int32 (2 ^ k) = 2 ^ k" by (rule int32_exp)
      then show ?thesis using p k30 by auto
    qed
  qed
qed

lemma pow2ize_nonpos: "x \<le> 0 \<Longrightarrow> - (2 ^ 31) < x \<Longrightarrow> pow2ize x = 0"
proof -
  assume a: "x \<le> 0" "- (2 ^ 31) < x"
  then have z: "int32 (x - 1) = x - 1" by (intro int32_id) simp_all
  have "fill (x - 1) = - 1" using a by (intro fill_neg) simp_all
  then show ?thesis unfolding pow2ize_fill z by simp
qed

lemma pow2ize_pos:
  assumes "1 \<le> x" "x \<le> 2 ^ 30"
  shows "\<exists>k\<le>30. pow2ize x = 2 ^ k \<and> x \<le> 2 ^ k \<and> (2::int) ^ k < 2 * x"
proof -
  have z: "int32 (x - 1) = x - 1" using assms by (intro int32_id) simp_all
  obtain k where k: "k \<le> 30" "x - 1 < 2 ^ k" "k = 0 \<or> 2 ^ (k - 1) \<le> x - 1"
    using exp_bracket[of "x - 1" 30] assms by auto
  then have f: "fill (x - 1) = mask k" using assms by (intro fill_nonneg) simp_all
  have "int32 (2 ^ k) = 2 ^ k" using k by (intro int32_exp)
  then have p: "pow2ize x = 2 ^ k" by (simp add: pow2ize_fill z f mask_eq_exp_minus_1)
  have "(2::int) ^ k < 2 * x"
  proof (cases k)
    case 0 then show ?thesis using assms by simp
  next
    case (Suc k') then show ?thesis using k(3) by simp
  qed
  with p k show ?thesis by auto
qed

section \<open>Termination of growth\<close>

text \<open>
  Growth doubles the size, and the doubled size is positive until it leaves the range of
  \<^verbatim>\<open>int\<close>; a table whose size is not positive is merged by a loop that does not run. The
  rank of a size bounds the number of nested growths.
\<close>

lemma int32_wrap_down: "2 ^ 31 \<le> x \<Longrightarrow> x < 2 ^ 32 \<Longrightarrow> int32 x = x - 2 ^ 32"
proof -
  assume a: "2 ^ 31 \<le> x" "x < 2 ^ 32"
  have "(x + 2 ^ 31) mod 2 ^ 32 = (x + 2 ^ 31 - 2 ^ 32) mod 2 ^ 32"
    by (metis mod_diff_right_eq mod_self diff_zero)
  also have "\<dots> = x + 2 ^ 31 - 2 ^ 32" using a by (intro mod_pos_pos_trivial) simp_all
  finally show ?thesis
    by (simp add: int32_def signed_take_bit_eq_take_bit_shift take_bit_eq_mod)
qed

lemma int32_wrap_up: "- (2 ^ 32) \<le> x \<Longrightarrow> x < - (2 ^ 31) \<Longrightarrow> int32 x = x + 2 ^ 32"
proof -
  assume a: "- (2 ^ 32) \<le> x" "x < - (2 ^ 31)"
  have "(x + 2 ^ 31) mod 2 ^ 32 = (x + 2 ^ 31 + 2 ^ 32) mod 2 ^ 32"
    by (metis mod_add_self2)
  also have "\<dots> = x + 2 ^ 31 + 2 ^ 32" using a by (intro mod_pos_pos_trivial) simp_all
  finally show ?thesis
    by (simp add: int32_def signed_take_bit_eq_take_bit_shift take_bit_eq_mod)
qed

definition grow_rank :: "int \<Rightarrow> nat" where
  "grow_rank s =
     (if s = 0 then 0
      else if s = - (2 ^ 31) then 1
      else if 0 < s \<and> s < 2 ^ 31 then nat (2 ^ 31 - s) + 1
      else 2 ^ 31 + 1)"

lemma pow2ize_min: "pow2ize (- (2 ^ 31)) = - (2 ^ 31)"
  by (simp add: pow2ize_def int32_def Let_def)

lemma exp_bounds: "k \<le> 30 \<Longrightarrow> (1::int) \<le> 2 ^ k \<and> (2::int) ^ k \<le> 2 ^ 30"
proof -
  assume "k \<le> 30"
  then have "(2::int) ^ k \<le> 2 ^ 30" by (intro power_increasing) simp_all
  moreover have "(1::int) \<le> 2 ^ k" by simp
  ultimately show ?thesis by blast
qed

lemma grow_rank_mid: "1 \<le> p \<Longrightarrow> p \<le> 2 ^ 30 \<Longrightarrow> grow_rank p = nat (2 ^ 31 - p) + 1"
  by (simp add: grow_rank_def)

lemma grow_rank_pow2ize: "grow_rank (pow2ize x) \<le> 2 ^ 31"
  using pow2ize_cases[of x]
proof (elim disjE exE conjE)
  fix k assume k: "k \<le> 30" "pow2ize x = 2 ^ k"
  define p :: int where "p = 2 ^ k"
  have "1 \<le> p" "p \<le> 2 ^ 30" using exp_bounds[OF k(1)] by (simp_all add: p_def)
  then have "grow_rank p \<le> 2 ^ 31" by (simp add: grow_rank_mid)
  then show ?thesis using k by (simp add: p_def)
qed (simp_all add: grow_rank_def)

lemma pow2ize_over:
  assumes "2 ^ 30 < x" "x < 2 ^ 31"
  shows "pow2ize x = - (2 ^ 31)"
proof -
  have z: "int32 (x - 1) = x - 1" using assms by (intro int32_id) simp_all
  have "fill (x - 1) = mask 31" using assms by (intro fill_nonneg) simp_all
  then show ?thesis unfolding pow2ize_fill z by (simp add: mask_eq_exp_minus_1 int32_exp31)
qed

lemma grow_rank_less:
  assumes "0 < s"
  shows "grow_rank (pow2ize (int32 (s * 2))) < grow_rank s"
proof -
  consider "s \<le> 2 ^ 29" | "2 ^ 29 < s" "s < 2 ^ 30" | "2 ^ 30 \<le> s" "s < 2 ^ 31" | "2 ^ 31 \<le> s"
    by linarith
  then show ?thesis
  proof cases
    case 1
    then have i: "int32 (s * 2) = s * 2" using assms by (intro int32_id) simp_all
    have "1 \<le> s * 2" "s * 2 \<le> 2 ^ 30" using assms 1 by simp_all
    from pow2ize_pos[OF this] obtain k where k: "k \<le> 30" "pow2ize (s * 2) = 2 ^ k" "s * 2 \<le> 2 ^ k"
      by blast
    define p :: int where "p = 2 ^ k"
    have p: "1 \<le> p" "p \<le> 2 ^ 30" "s < p" using exp_bounds[OF k(1)] k(3) assms by (simp_all add: p_def)
    have "grow_rank p < grow_rank s" using p assms 1 by (simp add: grow_rank_mid)
    then show ?thesis using k by (simp add: i p_def)
  next
    case 2
    then have i: "int32 (s * 2) = s * 2" using assms by (intro int32_id) simp_all
    have "pow2ize (s * 2) = - (2 ^ 31)" using 2 by (intro pow2ize_over) simp_all
    then have "grow_rank (pow2ize (int32 (s * 2))) = 1" by (simp add: i grow_rank_def)
    moreover have "2 \<le> grow_rank s" using 2 assms by (simp add: grow_rank_def)
    ultimately show ?thesis by simp
  next
    case 3
    then have i: "int32 (s * 2) = s * 2 - 2 ^ 32" by (intro int32_wrap_down) simp_all
    have "pow2ize (s * 2 - 2 ^ 32) = 0 \<or> pow2ize (s * 2 - 2 ^ 32) = - (2 ^ 31)"
    proof (cases "s = 2 ^ 30")
      case True then show ?thesis using pow2ize_min by simp
    next
      case False
      then have "pow2ize (s * 2 - 2 ^ 32) = 0" using 3 by (intro pow2ize_nonpos) simp_all
      then show ?thesis by simp
    qed
    then have "grow_rank (pow2ize (int32 (s * 2))) \<le> 1" unfolding i by (auto simp: grow_rank_def)
    moreover have "2 \<le> grow_rank s" using 3 assms by (simp add: grow_rank_def)
    ultimately show ?thesis by simp
  next
    case 4
    then have "grow_rank s = 2 ^ 31 + 1" by (simp add: grow_rank_def)
    then show ?thesis using grow_rank_pow2ize[of "int32 (s * 2)"] by simp
  qed
qed

lemma grow_rank_le: "grow_rank (pow2ize (int32 (s * 2))) \<le> grow_rank s"
proof -
  consider "0 < s" | "s = 0" | "s = - (2 ^ 31)" | "s < 0" "s \<noteq> - (2 ^ 31)" by linarith
  then show ?thesis
  proof cases
    case 1 then show ?thesis using grow_rank_less[of s] by simp
  next
    case 2 then show ?thesis using pow2ize_nonpos[of 0] by simp
  next
    case 3
    have "int32 (- (2 ^ 31) * 2) = 0" by (simp add: int32_def)
    then show ?thesis using 3 pow2ize_nonpos[of 0] by (simp add: grow_rank_def)
  next
    case 4
    then have "grow_rank s = 2 ^ 31 + 1" by (simp add: grow_rank_def)
    then show ?thesis using grow_rank_pow2ize[of "int32 (s * 2)"] by simp
  qed
qed

lemma generalmapAdd_slot_size:
  "generalmapAdd_slot m key value hashf cmp valuesF = Some (p, m') \<Longrightarrow> size' m' = size' m"
  by (auto simp: generalmapAdd_slot_def Let_def split: Option.bind_splits if_splits prod.splits)

lemma generalmapInit_size [simp]: "size' (generalmapInit s c h) = pow2ize s"
  by (simp add: generalmapInit_def Let_def)

lemma grow_rank_result:
  "generalmapAdd_generalmapMerge_loop_dom (Inl (m, key, value, hashf, cmp, valuesF)) \<Longrightarrow>
     generalmapAdd m key value hashf cmp valuesF = Some (p, m') \<Longrightarrow>
     grow_rank (size' m') \<le> grow_rank (size' m)"
  "generalmapAdd_generalmapMerge_loop_dom (Inr (dest, src, hashf, cmp, dup, valuesF, index)) \<Longrightarrow>
     generalmapMerge_loop dest src hashf cmp dup valuesF index = Some dest' \<Longrightarrow>
     grow_rank (size' dest') \<le> grow_rank (size' dest)"
proof (induction arbitrary: p m' and dest' rule: generalmapAdd_generalmapMerge_loop.pinduct)
  case (1 m key "value" hashf cmp valuesF)
  show ?case
  proof (cases "size' m \<le> int32 (int32 (elements m * 2) + 1)")
    case True
    from 1(3) True obtain newmap where
      nm: "generalmapMerge_loop (generalmapInit (int32 (size' m * 2)) libc_calloc (cmp \<noteq> None)) m hashf cmp None valuesF 0 = Some newmap"
      and sl: "generalmapAdd_slot newmap key value hashf cmp valuesF = Some (p, m')"
      by (auto simp: generalmapAdd.psimps[OF 1(1)] Let_def split: Option.bind_splits prod.splits)
    have "grow_rank (size' newmap) \<le> grow_rank (pow2ize (int32 (size' m * 2)))"
      using 1(2)[OF True refl nm] by simp
    also have "\<dots> \<le> grow_rank (size' m)" by (rule grow_rank_le)
    finally show ?thesis using generalmapAdd_slot_size[OF sl] by simp
  next
    case False
    with 1(3) have "generalmapAdd_slot m key value hashf cmp valuesF = Some (p, m')"
      by (auto simp: generalmapAdd.psimps[OF 1(1)])
    then show ?thesis using generalmapAdd_slot_size by simp
  qed
next
  case (2 dest src hashf cmp dup valuesF index)
  show ?case
  proof (cases "index < size' src")
    case False
    with 2(5) show ?thesis by (simp add: generalmapMerge_loop.psimps[OF 2(1)])
  next
    case True
    from 2(5) True obtain k where k: "rd (keysInt src) index = Some k"
      by (auto simp: generalmapMerge_loop.psimps[OF 2(1)] split: Option.bind_splits)
    show ?thesis
    proof (cases "k = 0")
      case True
      with 2(5) k \<open>index < size' src\<close>
      have "generalmapMerge_loop dest src hashf cmp dup valuesF (index + 1) = Some dest'"
        by (simp add: generalmapMerge_loop.psimps[OF 2(1)])
      then show ?thesis using 2(2)[OF \<open>index < size' src\<close> k True] by simp
    next
      case False
      from 2(5) k False \<open>index < size' src\<close> obtain v pr d1 where
        v: "(if valuesF then rd (values' src) index else Some 0) = Some v"
        and a: "generalmapAdd dest (case dup of None \<Rightarrow> k | Some d \<Rightarrow> d k) v hashf cmp valuesF = Some (pr, d1)"
        and l: "generalmapMerge_loop d1 src hashf cmp dup valuesF (index + 1) = Some dest'"
        by (auto simp: generalmapMerge_loop.psimps[OF 2(1)] Let_def split: Option.bind_splits prod.splits)
      have "grow_rank (size' dest') \<le> grow_rank (size' d1)"
        using 2(4)[OF \<open>index < size' src\<close> k False refl v a refl l] .
      also have "\<dots> \<le> grow_rank (size' dest)"
        using 2(3)[OF \<open>index < size' src\<close> k False refl v a] .
      finally show ?thesis .
    qed
  qed
qed

termination generalmapAdd
proof (relation "inv_image (less_than <*lex*> less_than <*lex*> less_than)
   (\<lambda>x. case x of
          Inl (m, key, value, hashf, cmp, valuesF) \<Rightarrow> (grow_rank (size' m), 1::nat, 0::nat)
        | Inr (dest, src, hashf, cmp, dup, valuesF, index) \<Rightarrow>
            (if index < size' src then grow_rank (size' dest) + 1 else 0, 0, nat (size' src - index)))",
    goal_cases)
  case 1
  show ?case by (intro wf_inv_image wf_lex_prod wf_less_than)
next
  case (2 m key "value" hashf cmp valuesF x)
  show ?case using grow_rank_less[of "size' m"] 2 by (auto simp: less_Suc_eq_le Suc_le_eq)
next
  case (3 dest src hashf cmp dup valuesF index a)
  then show ?case by auto
next
  case (4 dest src hashf cmp dup valuesF index a x aa)
  then show ?case by auto
next
  case (5 dest src hashf cmp dup valuesF index a x aa ab xa y)
  from 5 have "generalmapAdd_generalmapMerge_loop_dom (Inl (dest, x, aa, hashf, cmp, valuesF))"
    and "generalmapAdd dest x aa hashf cmp valuesF = Some (xa, y)" by simp_all
  then have "grow_rank (size' y) \<le> grow_rank (size' dest)"
    by (rule grow_rank_result(1))
  with 5 show ?case by auto
qed

section \<open>Merge, lookup and the integer variants\<close>

definition generalmapMerge ::
  "generalmap \<Rightarrow> generalmap \<Rightarrow> generalmapHash \<Rightarrow> generalmapCmp option
     \<Rightarrow> generalmapDup option \<Rightarrow> bool \<Rightarrow> generalmap option" where
  "generalmapMerge dest src hash cmp dup valuesF = generalmapMerge_loop dest src hash cmp dup valuesF 0"

definition generalmapMap ::
  "generalmap \<Rightarrow> int \<Rightarrow> generalmapHash \<Rightarrow> generalmapCmp option \<Rightarrow> int option" where
  "generalmapMap m key hashf cmp = do {
     let hash = int32 (hashf key (size' m));
     index \<leftarrow> generalmapFind m key hash cmp;
     ok \<leftarrow> generalmapIsMatch m index key hash cmp;
     if ok then rd (values' m) index else Some 0 }"

definition generalmapTest ::
  "generalmap \<Rightarrow> int \<Rightarrow> generalmapHash \<Rightarrow> generalmapCmp option \<Rightarrow> bool option" where
  "generalmapTest m key hashf cmp = do {
     let hash = int32 (hashf key (size' m));
     index \<leftarrow> generalmapFind m key hash cmp;
     generalmapIsMatch m index key hash cmp }"

definition intmapInit :: "int \<Rightarrow> calloc_t \<Rightarrow> generalmap" where
  "intmapInit size0 calloc = generalmapInit size0 calloc False"

definition intmapAdd :: "generalmap \<Rightarrow> int \<Rightarrow> int \<Rightarrow> (bool \<times> generalmap) option" where
  "intmapAdd m element value = generalmapAdd m element value hashint None True"

definition intmapMerge :: "generalmap \<Rightarrow> generalmap \<Rightarrow> generalmap option" where
  "intmapMerge dest src = generalmapMerge dest src hashint None None True"

definition intmapMap :: "generalmap \<Rightarrow> int \<Rightarrow> int option" where
  "intmapMap m element = generalmapMap m element hashint None"

definition intsetInit :: "int \<Rightarrow> calloc_t \<Rightarrow> generalmap" where
  "intsetInit size0 calloc = generalmapInit size0 calloc False"

definition intsetAdd :: "generalmap \<Rightarrow> int \<Rightarrow> (bool \<times> generalmap) option" where
  "intsetAdd set0 element = generalmapAdd set0 element 0 hashint None False"

definition intsetTest :: "generalmap \<Rightarrow> int \<Rightarrow> bool option" where
  "intsetTest set0 element = generalmapTest set0 element hashint None"

section \<open>The probe sequence\<close>

declare generalmapFind_loop.simps [simp del]
declare generalmapAdd.simps [simp del]
declare generalmapMerge_loop.simps [simp del]

definition probe_seq :: "nat \<Rightarrow> nat \<Rightarrow> nat list" where
  "probe_seq h n = [h..<n] @ [0..<h]"

definition key_eq :: "generalmapCmp option \<Rightarrow> int \<Rightarrow> int \<Rightarrow> bool" where
  "key_eq cmp actual key = (case cmp of None \<Rightarrow> actual = key | Some c \<Rightarrow> c actual key = 0)"

definition arrays_ok :: "generalmapCmp option \<Rightarrow> generalmap \<Rightarrow> bool" where
  "arrays_ok cmp m \<longleftrightarrow>
     0 \<le> size' m \<and>
     (\<exists>ks. keysInt m = Some ks \<and> length ks = nat (size' m)) \<and>
     (\<exists>vs. values' m = Some vs \<and> length vs = nat (size' m)) \<and>
     (cmp \<noteq> None \<longrightarrow> (\<exists>hs. hashes m = Some hs \<and> length hs = nat (size' m)))"

definition is_match :: "generalmap \<Rightarrow> generalmapCmp option \<Rightarrow> int \<Rightarrow> int \<Rightarrow> nat \<Rightarrow> bool" where
  "is_match m cmp key hash j =
     (case cmp of
        Some c \<Rightarrow> the (hashes m) ! j = hash \<and> c (the (keysInt m) ! j) key = 0
      | None \<Rightarrow> the (keysInt m) ! j = key)"

definition stops :: "generalmap \<Rightarrow> generalmapCmp option \<Rightarrow> int \<Rightarrow> int \<Rightarrow> nat \<Rightarrow> bool" where
  "stops m cmp key hash j \<longleftrightarrow> the (values' m) ! j = 0 \<or> is_match m cmp key hash j"

lemma rd_Some: "0 \<le> i \<Longrightarrow> i < int (length xs) \<Longrightarrow> rd (Some xs) i = Some (xs ! nat i)"
  by (simp add: rd_def)

lemma wr_Some: "0 \<le> i \<Longrightarrow> i < int (length xs) \<Longrightarrow> wr (Some xs) i v = Some (Some (xs[nat i := v]))"
  by (simp add: wr_def)

lemma IsMatch_ok:
  assumes "arrays_ok cmp m" "0 \<le> i" "i < size' m"
  shows "generalmapIsMatch m i key hash cmp = Some (is_match m cmp key hash (nat i))"
  using assms
  by (cases cmp) (auto simp: arrays_ok_def generalmapIsMatch_def is_match_def rd_Some)

lemma rd_values_ok:
  assumes "arrays_ok cmp m" "0 \<le> i" "i < size' m"
  shows "rd (values' m) i = Some (the (values' m) ! nat i)"
  using assms by (auto simp: arrays_ok_def rd_Some)

lemma rd_keys_ok:
  assumes "arrays_ok cmp m" "0 \<le> i" "i < size' m"
  shows "rd (keysInt m) i = Some (the (keysInt m) ! nat i)"
  using assms by (auto simp: arrays_ok_def rd_Some)

lemma Find_loop_ok:
  "arrays_ok cmp m \<Longrightarrow> 0 \<le> index \<Longrightarrow> bound \<le> size' m \<Longrightarrow>
     generalmapFind_loop m key hash cmp index bound =
       Some (map_option int (List.find (stops m cmp key hash) [nat index..<nat bound]))"
proof (induction m key hash cmp index bound rule: generalmapFind_loop.induct)
  case (1 m key hash cmp index bound)
  show ?case
  proof (cases "index < bound")
    case False
    then have "[nat index..<nat bound] = []" by simp
    with False show ?thesis by (subst generalmapFind_loop.simps) simp
  next
    case True
    have assms: "arrays_ok cmp m" using 1 by simp
    have r: "0 \<le> index" "index < size' m" using 1 True by simp_all
    have u: "[nat index..<nat bound] = nat index # [nat (index + 1)..<nat bound]"
      using True r by (simp add: upt_conv_Cons nat_add_distrib)
    have v: "rd (values' m) index = Some (the (values' m) ! nat index)"
      using rd_values_ok[OF assms r] .
    have im: "generalmapIsMatch m index key hash cmp = Some (is_match m cmp key hash (nat index))"
      using IsMatch_ok[OF assms r] .
    show ?thesis
    proof (cases "stops m cmp key hash (nat index)")
      case True
      then show ?thesis using \<open>index < bound\<close> r
        by (subst generalmapFind_loop.simps) (auto simp: u v im stops_def)
    next
      case False
      then have ne: "the (values' m) ! nat index \<noteq> 0" and nm: "\<not> is_match m cmp key hash (nat index)"
        by (simp_all add: stops_def)
      have ih: "generalmapFind_loop m key hash cmp (index + 1) bound =
          Some (map_option int (List.find (stops m cmp key hash) [nat (index + 1)..<nat bound]))"
        using 1(1)[OF \<open>index < bound\<close> v _ _ assms] ne nm im 1(4) r by simp
      show ?thesis using \<open>index < bound\<close> False ne nm
        by (subst generalmapFind_loop.simps) (simp add: u v im ih)
    qed
  qed
qed

lemma find_app: "List.find P (xs @ ys) = (case List.find P xs of Some x \<Rightarrow> Some x | None \<Rightarrow> List.find P ys)"
  by (induction xs) simp_all

lemma Find_ok:
  assumes "arrays_ok cmp m" "0 \<le> hash" "hash < size' m"
  shows "generalmapFind m key hash cmp =
     Some (case List.find (stops m cmp key hash) (probe_seq (nat hash) (nat (size' m))) of
             Some j \<Rightarrow> int j | None \<Rightarrow> hash)"
proof -
  have a: "generalmapFind_loop m key hash cmp hash (size' m) =
      Some (map_option int (List.find (stops m cmp key hash) [nat hash..<nat (size' m)]))"
    using assms by (intro Find_loop_ok) simp_all
  have b: "generalmapFind_loop m key hash cmp 0 hash =
      Some (map_option int (List.find (stops m cmp key hash) [0..<nat hash]))"
    using Find_loop_ok[of cmp m 0 hash key hash] assms by simp
  show ?thesis
    by (simp add: generalmapFind_def a b probe_seq_def find_app split: option.splits)
qed

lemma probe_seq_nth:
  assumes "h < n" "d < n"
  shows "probe_seq h n ! d = (h + d) mod n"
proof (cases "d < n - h")
  case True
  then show ?thesis using assms by (simp add: probe_seq_def nth_append)
next
  case False
  then have "h + d - n < n" "n \<le> h + d" using assms by simp_all
  then have "(h + d) mod n = h + d - n" by (simp add: le_mod_geq)
  then show ?thesis using False assms by (simp add: probe_seq_def nth_append)
qed

lemma probe_seq_length [simp]: "h \<le> n \<Longrightarrow> length (probe_seq h n) = n"
  by (simp add: probe_seq_def)

lemma probe_seq_set [simp]: "h \<le> n \<Longrightarrow> set (probe_seq h n) = {0..<n}"
  by (auto simp: probe_seq_def)

lemma probe_seq_distinct [simp]: "h \<le> n \<Longrightarrow> distinct (probe_seq h n)"
  by (auto simp: probe_seq_def)

lemma probe_seq_mod: "h < n \<Longrightarrow> probe_seq h n = map (\<lambda>d. (h + d) mod n) [0..<n]"
  by (rule nth_equalityI) (simp_all add: probe_seq_nth)

lemma find_map: "List.find P (map f xs) = map_option f (List.find (P \<circ> f) xs)"
  by (induction xs) simp_all

lemma find_upt_Some:
  "List.find P [0..<n] = Some d \<Longrightarrow> d < n \<and> P d \<and> (\<forall>e<d. \<not> P e)"
  by (auto simp: find_Some_iff)

lemma cyclic_distance:
  fixes h d n :: nat
  assumes "d < n"
  shows "(int ((h + d) mod n) - int h) mod int n = int d"
proof -
  have "(int ((h + d) mod n) - int h) mod int n = ((int h + int d) mod int n - int h) mod int n"
    by (simp add: zmod_int)
  also have "\<dots> = (int h + int d - int h) mod int n"
    by (simp add: mod_diff_left_eq)
  also have "\<dots> = int d" using assms by simp
  finally show ?thesis .
qed

text \<open>
  Claim C9. On a table of size at least one whose arrays hold \<open>size\<close> entries, and for a
  start slot \<open>hash\<close> in \<open>[0, size)\<close>, \<^verbatim>\<open>generalmapFind\<close> returns (the function is total,
  and its result here is not the undefined one) an index in \<open>[0, size)\<close>. The table is an
  argument that is only read: the result is an index and nothing else. When some slot is
  empty or matches the key, the index is the first such slot met from \<open>hash\<close> on, going
  up and wrapping around at \<open>size\<close>: no slot at a smaller distance from \<open>hash\<close> is empty
  or matches. When the table is full and no slot matches, the index is \<open>hash\<close>.
\<close>

theorem generalmapFind_valid_index:
  assumes ok: "arrays_ok cmp m" and s: "1 \<le> size' m" and h: "0 \<le> hash" "hash < size' m"
  shows "\<exists>index. generalmapFind m key hash cmp = Some index \<and> 0 \<le> index \<and> index < size' m \<and>
     (if \<exists>j<nat (size' m). stops m cmp key hash j
      then stops m cmp key hash (nat index) \<and>
           (\<forall>d. 0 \<le> d \<and> d < (index - hash) mod size' m \<longrightarrow>
                \<not> stops m cmp key hash (nat ((hash + d) mod size' m)))
      else index = hash)"
proof -
  define n where "n = nat (size' m)"
  define hn where "hn = nat hash"
  have n: "size' m = int n" "hash = int hn" "hn < n" "0 < n" using s h by (simp_all add: n_def hn_def)
  let ?P = "stops m cmp key hash"
  let ?f = "\<lambda>d. (hn + d) mod n"
  have F: "generalmapFind m key hash cmp =
      Some (case List.find (?P \<circ> ?f) [0..<n] of Some d \<Rightarrow> int (?f d) | None \<Rightarrow> hash)"
    using Find_ok[OF ok h, of key] n
    by (simp add: n_def[symmetric] hn_def[symmetric] probe_seq_mod find_map split: option.splits)
  show ?thesis
  proof (cases "List.find (?P \<circ> ?f) [0..<n]")
    case None
    then have "\<forall>d<n. \<not> ?P (?f d)" by (auto simp: find_None_iff)
    moreover have "\<forall>j<n. \<exists>d<n. ?f d = j"
    proof (intro allI impI)
      fix j assume "j < n"
      then have "j \<in> set (probe_seq hn n)" using n by simp
      then show "\<exists>d<n. ?f d = j" using n by (auto simp: probe_seq_mod)
    qed
    ultimately have "\<not> (\<exists>j<n. ?P j)" by metis
    then show ?thesis using F None n h by (simp add: n_def[symmetric])
  next
    case (Some d)
    from find_upt_Some[OF Some] have d: "d < n" "?P (?f d)" "\<forall>e<d. \<not> ?P (?f e)" by simp_all
    have idx: "generalmapFind m key hash cmp = Some (int (?f d))" using F Some by simp
    have dist: "(int (?f d) - hash) mod size' m = int d" using cyclic_distance[OF d(1), of hn] n by simp
    have ex: "\<exists>j<nat (size' m). ?P j" using d n by (intro exI[of _ "?f d"]) (simp add: n_def[symmetric])
    have before: "\<not> ?P (nat ((hash + e) mod size' m))" if "0 \<le> e" "e < int d" for e
    proof -
      have "nat e < d" using that by simp
      then have "\<not> ?P (?f (nat e))" using d(3) by blast
      moreover have "nat ((hash + e) mod size' m) = ?f (nat e)"
        using that n by (simp add: nat_mod_distrib nat_add_distrib zmod_int)
      ultimately show ?thesis by simp
    qed
    have "0 \<le> int (?f d)" "int (?f d) < size' m" using n by simp_all
    then show ?thesis using idx ex d(2) dist before by (intro exI[of _ "int (?f d)"]) simp
  qed
qed

theorem generalmapFind_valid_index_witness:
  "arrays_ok None \<lparr>size' = 4, elements = 2, keysInt = Some [0, 5, 9, 0], hashes = None,
       values' = Some [0, 7, 8, 0]\<rparr> \<and>
   (\<exists>index.
      generalmapFind \<lparr>size' = 4, elements = 2, keysInt = Some [0, 5, 9, 0], hashes = None,
          values' = Some [0, 7, 8, 0]\<rparr> 13 1 None = Some index \<and>
      0 \<le> index \<and> index < 4) \<and>
   generalmapFind \<lparr>size' = 4, elements = 2, keysInt = Some [0, 5, 9, 0], hashes = None,
       values' = Some [0, 7, 8, 0]\<rparr> 13 1 None = Some 3"
proof -
  let ?m = "\<lparr>size' = 4, elements = 2, keysInt = Some [0, 5, 9, 0], hashes = None,
       values' = Some [0, 7, 8, 0]\<rparr>"
  have a: "arrays_ok None ?m" by (simp add: arrays_ok_def)
  have b: "1 \<le> size' ?m" "0 \<le> (1::int)" "1 < size' ?m" by simp_all
  have c: "generalmapFind ?m 13 1 None = Some 3" by code_simp
  from generalmapFind_valid_index[OF a b, of 13]
  have "\<exists>index. generalmapFind ?m 13 1 None = Some index \<and> 0 \<le> index \<and> index < 4"
    by auto
  with a c show ?thesis by blast
qed

section \<open>A size hint of zero\<close>

text \<open>
  Claim C8, at the size hint \<open>0\<close>: \<^verbatim>\<open>pow2ize\<close> decrements to \<open>-1\<close>, the shifts keep every
  bit set and the increment gives \<open>0\<close>, so the table is created with size \<open>0\<close> and not \<open>1\<close>.
  An Add on that table grows it to size \<open>0\<close> again and reads outside its empty arrays.
\<close>

theorem generalmapInit_zero_hint:
  "pow2ize 0 = 0 \<and>
   size' (generalmapInit 0 calloc hashesF) = 0 \<and>
   generalmapAdd (generalmapInit 0 libc_calloc False) 5 7 hashint None True = None"
proof -
  have "pow2ize 0 = 0" by (simp add: pow2ize_def Let_def int32_def)
  moreover have "generalmapAdd (generalmapInit 0 libc_calloc False) 5 7 hashint None True = None"
    by code_simp
  ultimately show ?thesis by simp
qed

text \<open>
  Claim C7, at the size hint \<open>0\<close>: the size after \<^verbatim>\<open>generalmapInit\<close> is \<open>0\<close>, which is no power
  of two.
\<close>

theorem generalmapInit_zero_not_power_of_two:
  "\<forall>k. size' (generalmapInit 0 calloc hashesF) \<noteq> 2 ^ k"
  by (simp add: generalmapInit_def pow2ize_def Let_def int32_def)

section \<open>Well-formed tables\<close>

text \<open>
  The comparator and the hash function of a variant: hashes lie in \<open>[0, size)\<close>, matching
  is an equivalence of keys, and matching keys have equal hashes. A table is well formed
  when its size is a power of two, its arrays have that many entries, \<open>elements\<close> counts the
  slots with a value, the slots without a value have no key, every slot with a value holds
  a key that is not zero and its hash, and all slots between the home slot of that key and
  the slot itself hold other keys.
\<close>

definition hash_ok :: "generalmapHash \<Rightarrow> generalmapCmp option \<Rightarrow> bool" where
  "hash_ok hashf cmp \<longleftrightarrow>
     (\<forall>key s. 1 \<le> s \<and> s \<le> 2 ^ 30 \<longrightarrow> 0 \<le> int32 (hashf key s) \<and> int32 (hashf key s) < s) \<and>
     (\<forall>a. key_eq cmp a a) \<and>
     (\<forall>a b. key_eq cmp a b \<longrightarrow> key_eq cmp b a) \<and>
     (\<forall>a b c. key_eq cmp a b \<longrightarrow> key_eq cmp b c \<longrightarrow> key_eq cmp a c) \<and>
     (\<forall>a b s. key_eq cmp a b \<longrightarrow> int32 (hashf a s) = int32 (hashf b s))"

definition occupied :: "generalmap \<Rightarrow> nat \<Rightarrow> bool" where
  "occupied m i \<longleftrightarrow> i < nat (size' m) \<and> the (values' m) ! i \<noteq> 0"

definition key_at :: "generalmap \<Rightarrow> nat \<Rightarrow> int" where
  "key_at m i = the (keysInt m) ! i"

definition home :: "generalmapHash \<Rightarrow> generalmap \<Rightarrow> int \<Rightarrow> nat" where
  "home hashf m key = nat (int32 (hashf key (size' m)))"

definition before :: "nat list \<Rightarrow> nat \<Rightarrow> nat set" where
  "before xs i = set (takeWhile (\<lambda>j. j \<noteq> i) xs)"

definition table_wf :: "generalmapHash \<Rightarrow> generalmapCmp option \<Rightarrow> generalmap \<Rightarrow> bool" where
  "table_wf hashf cmp m \<longleftrightarrow>
     arrays_ok cmp m \<and>
     (\<exists>j\<le>30. size' m = 2 ^ j) \<and>
     elements m = int (card {i. occupied m i}) \<and>
     (\<forall>i < nat (size' m). \<not> occupied m i \<longrightarrow> key_at m i = 0) \<and>
     (\<forall>i. occupied m i \<longrightarrow>
        key_at m i \<noteq> 0 \<and>
        (cmp \<noteq> None \<longrightarrow> the (hashes m) ! i = int32 (hashf (key_at m i) (size' m))) \<and>
        (\<forall>j \<in> before (probe_seq (home hashf m (key_at m i)) (nat (size' m))) i.
            occupied m j \<and> \<not> key_eq cmp (key_at m j) (key_at m i)))"

definition table_get :: "generalmapCmp option \<Rightarrow> generalmap \<Rightarrow> int \<Rightarrow> int" where
  "table_get cmp m k =
     (case List.find (\<lambda>i. the (values' m) ! i \<noteq> 0 \<and> key_eq cmp (key_at m i) k) [0..<nat (size' m)] of
        Some i \<Rightarrow> the (values' m) ! i
      | None \<Rightarrow> 0)"

definition set_table :: "generalmapCmp option \<Rightarrow> generalmap \<Rightarrow> bool" where
  "set_table cmp m \<longleftrightarrow> (\<forall>k. table_get cmp m k = 0 \<or> table_get cmp m k = 1)"

definition table_inv :: "generalmapHash \<Rightarrow> generalmapCmp option \<Rightarrow> bool \<Rightarrow> generalmap \<Rightarrow> bool" where
  "table_inv hashf cmp valuesF m \<longleftrightarrow>
     table_wf hashf cmp m \<and> 2 * elements m \<le> size' m \<and> (\<not> valuesF \<longrightarrow> set_table cmp m)"

lemma find_prefix:
  "List.find P xs = Some x \<Longrightarrow> x \<in> set xs \<and> P x \<and> (\<forall>y \<in> before xs x. \<not> P y)"
proof (induction xs)
  case Nil
  then show ?case by simp
next
  case (Cons a xs)
  show ?case
  proof (cases "P a")
    case True
    with Cons.prems have "x = a" by simp
    with True show ?thesis by (simp add: before_def)
  next
    case False
    with Cons.prems have f: "List.find P xs = Some x" by simp
    from Cons.IH[OF f] have ih: "x \<in> set xs" "P x" "\<forall>y \<in> before xs x. \<not> P y" by simp_all
    have "a \<noteq> x" using False ih by blast
    then have "before (a # xs) x = insert a (before xs x)" by (simp add: before_def)
    with ih False show ?thesis by simp
  qed
qed

lemma find_first:
  "x \<in> set xs \<Longrightarrow> P x \<Longrightarrow> \<forall>y \<in> before xs x. \<not> P y \<Longrightarrow> List.find P xs = Some x"
proof (induction xs)
  case Nil
  then show ?case by simp
next
  case (Cons a xs)
  show ?case
  proof (cases "a = x")
    case True
    with Cons.prems show ?thesis by simp
  next
    case False
    then have b: "before (a # xs) x = insert a (before xs x)" by (simp add: before_def)
    with Cons.prems have "\<not> P a" "x \<in> set xs" "\<forall>y \<in> before xs x. \<not> P y" using False by auto
    with Cons.IH Cons.prems(2) show ?thesis by simp
  qed
qed

lemma before_total:
  "x \<in> set xs \<Longrightarrow> y \<in> set xs \<Longrightarrow> x \<noteq> y \<Longrightarrow> x \<in> before xs y \<or> y \<in> before xs x"
proof (induction xs)
  case Nil
  then show ?case by simp
next
  case (Cons a xs)
  show ?case
  proof (cases "a = x")
    case True
    with Cons.prems have "x \<in> before (a # xs) y" by (simp add: before_def)
    then show ?thesis by simp
  next
    case False
    note ax = this
    show ?thesis
    proof (cases "a = y")
      case True
      with Cons.prems have "y \<in> before (a # xs) x" by (simp add: before_def)
      then show ?thesis by simp
    next
      case False
      then have "x \<in> set xs" "y \<in> set xs" using Cons.prems ax by simp_all
      from Cons.IH[OF this Cons.prems(3)] have "x \<in> before xs y \<or> y \<in> before xs x" .
      moreover have "before (a # xs) y = insert a (before xs y)" "before (a # xs) x = insert a (before xs x)"
        using False ax by (simp_all add: before_def)
      ultimately show ?thesis by blast
    qed
  qed
qed


lemma before_subset: "before xs i \<subseteq> set xs"
  unfolding before_def by (auto dest: set_takeWhileD)

lemma before_not_self: "i \<notin> before xs i"
  unfolding before_def by (auto dest: set_takeWhileD)

lemma hash_okD:
  assumes "hash_ok hashf cmp"
  shows "1 \<le> s \<Longrightarrow> s \<le> 2 ^ 30 \<Longrightarrow> 0 \<le> int32 (hashf key s) \<and> int32 (hashf key s) < s"
    and "key_eq cmp a a"
    and "key_eq cmp a b \<Longrightarrow> key_eq cmp b a"
    and "key_eq cmp a b \<Longrightarrow> key_eq cmp b c \<Longrightarrow> key_eq cmp a c"
    and "key_eq cmp a b \<Longrightarrow> int32 (hashf a s) = int32 (hashf b s)"
  using assms unfolding hash_ok_def by blast+

lemma table_wf_size:
  assumes "table_wf hashf cmp m"
  shows "1 \<le> size' m" "size' m \<le> 2 ^ 30"
proof -
  from assms obtain j where j: "j \<le> 30" "size' m = 2 ^ j" unfolding table_wf_def by blast
  show "1 \<le> size' m" "size' m \<le> 2 ^ 30" using exp_bounds[OF j(1)] j(2) by simp_all
qed

lemma table_wf_arrays: "table_wf hashf cmp m \<Longrightarrow> arrays_ok cmp m"
  by (simp add: table_wf_def)

lemma home_less:
  assumes "hash_ok hashf cmp" "table_wf hashf cmp m"
  shows "home hashf m key < nat (size' m)"
    and "int (home hashf m key) = int32 (hashf key (size' m))"
  using hash_okD(1)[OF assms(1) table_wf_size[OF assms(2)], of key] by (simp_all add: home_def)

lemma home_eq:
  assumes "hash_ok hashf cmp" "key_eq cmp a b"
  shows "home hashf m a = home hashf m b"
  using hash_okD(5)[OF assms] by (simp add: home_def)

lemma occupied_less: "occupied m i \<Longrightarrow> i < nat (size' m)"
  by (simp add: occupied_def)

lemma table_wf_probe:
  assumes "table_wf hashf cmp m" "occupied m i"
    "j \<in> before (probe_seq (home hashf m (key_at m i)) (nat (size' m))) i"
  shows "occupied m j" "\<not> key_eq cmp (key_at m j) (key_at m i)"
  using assms unfolding table_wf_def by blast+

lemma table_wf_unique:
  assumes ok: "hash_ok hashf cmp" and wf: "table_wf hashf cmp m"
    and i: "occupied m i" and j: "occupied m j" and eq: "key_eq cmp (key_at m i) (key_at m j)"
  shows "i = j"
proof (rule ccontr)
  assume ne: "i \<noteq> j"
  let ?S = "probe_seq (home hashf m (key_at m i)) (nat (size' m))"
  have h: "home hashf m (key_at m i) = home hashf m (key_at m j)" using home_eq[OF ok eq] .
  have hl: "home hashf m (key_at m i) \<le> nat (size' m)" using home_less(1)[OF ok wf, of "key_at m i"] by simp
  have "i \<in> set ?S" "j \<in> set ?S" using occupied_less[OF i] occupied_less[OF j] hl by simp_all
  from before_total[OF this ne] show False
  proof
    assume "i \<in> before ?S j"
    then show False using table_wf_probe(2)[OF wf j, of i] h eq by simp
  next
    assume "j \<in> before ?S i"
    then show False using table_wf_probe(2)[OF wf i, of j] hash_okD(3)[OF ok eq] by simp
  qed
qed

lemma table_get_match:
  assumes ok: "hash_ok hashf cmp" and wf: "table_wf hashf cmp m"
    and i: "occupied m i" and eq: "key_eq cmp (key_at m i) k"
  shows "table_get cmp m k = the (values' m) ! i"
proof -
  let ?P = "\<lambda>i. the (values' m) ! i \<noteq> 0 \<and> key_eq cmp (key_at m i) k"
  have "\<exists>x. List.find ?P [0..<nat (size' m)] = Some x"
    using i eq by (cases "List.find ?P [0..<nat (size' m)]") (auto simp: find_None_iff occupied_def)
  then obtain x where x: "List.find ?P [0..<nat (size' m)] = Some x" by blast
  from find_prefix[OF x] have "occupied m x" "key_eq cmp (key_at m x) k" by (auto simp: occupied_def)
  then have "key_eq cmp (key_at m x) (key_at m i)"
    using hash_okD(3,4)[OF ok] eq by blast
  then have "x = i" using table_wf_unique[OF ok wf \<open>occupied m x\<close> i] by simp
  then show ?thesis using x by (simp add: table_get_def)
qed

lemma table_get_none:
  assumes "\<forall>i. occupied m i \<longrightarrow> \<not> key_eq cmp (key_at m i) k"
  shows "table_get cmp m k = 0"
proof -
  let ?P = "\<lambda>i. the (values' m) ! i \<noteq> 0 \<and> key_eq cmp (key_at m i) k"
  have "List.find ?P [0..<nat (size' m)] = None"
    using assms by (auto simp: find_None_iff occupied_def)
  then show ?thesis by (simp add: table_get_def)
qed

lemma table_get_nonzero:
  assumes "table_get cmp m k \<noteq> 0"
  shows "\<exists>i. occupied m i \<and> key_eq cmp (key_at m i) k"
  using assms table_get_none by blast

lemma is_match_occupied:
  assumes ok: "hash_ok hashf cmp" and wf: "table_wf hashf cmp m" and i: "occupied m i"
  shows "is_match m cmp key (int32 (hashf key (size' m))) i \<longleftrightarrow> key_eq cmp (key_at m i) key"
proof (cases cmp)
  case None
  then show ?thesis by (simp add: is_match_def key_eq_def key_at_def)
next
  case (Some c)
  have hs: "the (hashes m) ! i = int32 (hashf (key_at m i) (size' m))"
    using wf i Some unfolding table_wf_def by blast
  show ?thesis
  proof
    assume "is_match m cmp key (int32 (hashf key (size' m))) i"
    then show "key_eq cmp (key_at m i) key" using Some by (simp add: is_match_def key_eq_def key_at_def)
  next
    assume e: "key_eq cmp (key_at m i) key"
    then have "int32 (hashf (key_at m i) (size' m)) = int32 (hashf key (size' m))"
      using hash_okD(5)[OF ok] by blast
    then show "is_match m cmp key (int32 (hashf key (size' m))) i"
      using e hs Some by (simp add: is_match_def key_eq_def key_at_def)
  qed
qed

lemma stops_wf:
  assumes ok: "hash_ok hashf cmp" and wf: "table_wf hashf cmp m" and i: "i < nat (size' m)"
  shows "stops m cmp key (int32 (hashf key (size' m))) i \<longleftrightarrow>
           \<not> occupied m i \<or> key_eq cmp (key_at m i) key"
proof (cases "occupied m i")
  case True
  then show ?thesis using is_match_occupied[OF ok wf True, of key] by (simp add: stops_def occupied_def)
next
  case False
  then show ?thesis using i by (simp add: stops_def occupied_def)
qed

lemma exists_unoccupied:
  assumes "elements m = int (card {i. occupied m i})" "elements m < size' m"
  shows "\<exists>u < nat (size' m). \<not> occupied m u"
proof (rule ccontr)
  assume "\<not> (\<exists>u < nat (size' m). \<not> occupied m u)"
  then have "{i. occupied m i} = {0..<nat (size' m)}" by (auto simp: occupied_def)
  then have "card {i. occupied m i} = nat (size' m)" by simp
  with assms show False by (simp split: if_splits)
qed

lemma Find_wf:
  assumes ok: "hash_ok hashf cmp" and wf: "table_wf hashf cmp m" and room: "elements m < size' m"
  shows "\<exists>idx. generalmapFind m key (int32 (hashf key (size' m))) cmp = Some (int idx) \<and>
           idx < nat (size' m) \<and>
           (\<not> occupied m idx \<or> key_eq cmp (key_at m idx) key) \<and>
           (\<forall>j \<in> before (probe_seq (home hashf m key) (nat (size' m))) idx.
               occupied m j \<and> \<not> key_eq cmp (key_at m j) key)"
proof -
  let ?h = "int32 (hashf key (size' m))"
  let ?n = "nat (size' m)"
  let ?S = "probe_seq (home hashf m key) ?n"
  let ?P = "stops m cmp key ?h"
  have h: "0 \<le> ?h" "?h < size' m" using hash_okD(1)[OF ok table_wf_size[OF wf], of key] by simp_all
  have hl: "home hashf m key \<le> ?n" using home_less(1)[OF ok wf, of key] by simp
  have F: "generalmapFind m key ?h cmp =
      Some (case List.find ?P ?S of Some j \<Rightarrow> int j | None \<Rightarrow> ?h)"
    using Find_ok[OF table_wf_arrays[OF wf] h, of key] by (simp add: home_def)
  from wf have el: "elements m = int (card {i. occupied m i})" by (simp add: table_wf_def)
  from exists_unoccupied[OF el room] obtain u where u: "u < ?n" "\<not> occupied m u" by blast
  have "?P u" using stops_wf[OF ok wf u(1), of key] u(2) by simp
  moreover have "u \<in> set ?S" using u hl by simp
  ultimately have "List.find ?P ?S \<noteq> None" by (auto simp: find_None_iff)
  then obtain idx where idx: "List.find ?P ?S = Some idx" by blast
  from find_prefix[OF idx] have p: "idx \<in> set ?S" "?P idx" "\<forall>y \<in> before ?S idx. \<not> ?P y" by simp_all
  have il: "idx < ?n" using p(1) hl by simp
  have a: "\<not> occupied m idx \<or> key_eq cmp (key_at m idx) key"
    using stops_wf[OF ok wf il, of key] p(2) by simp
  have b: "occupied m j \<and> \<not> key_eq cmp (key_at m j) key" if "j \<in> before ?S idx" for j
  proof -
    have "j \<in> set ?S" using that before_subset by blast
    then have jl: "j < ?n" using hl by simp
    have "\<not> ?P j" using p(3) that by blast
    then show ?thesis using stops_wf[OF ok wf jl, of key] by simp
  qed
  show ?thesis using F idx il a b by (intro exI[of _ idx]) simp
qed

lemma no_match_if_stop_unoccupied:
  assumes ok: "hash_ok hashf cmp" and wf: "table_wf hashf cmp m"
    and idx: "idx < nat (size' m)" "\<not> occupied m idx"
    and pre: "\<forall>j \<in> before (probe_seq (home hashf m key) (nat (size' m))) idx.
               occupied m j \<and> \<not> key_eq cmp (key_at m j) key"
    and i: "occupied m i"
  shows "\<not> key_eq cmp (key_at m i) key"
proof
  assume eq: "key_eq cmp (key_at m i) key"
  let ?S = "probe_seq (home hashf m key) (nat (size' m))"
  have hl: "home hashf m key \<le> nat (size' m)" using home_less(1)[OF ok wf, of key] by simp
  have S: "?S = probe_seq (home hashf m (key_at m i)) (nat (size' m))"
    using home_eq[OF ok eq, of m] by simp
  have ne: "idx \<noteq> i" using idx i by blast
  have "idx \<in> set ?S" "i \<in> set ?S" using idx occupied_less[OF i] hl by simp_all
  from before_total[OF this ne] show False
  proof
    assume "idx \<in> before ?S i"
    then show False using table_wf_probe(1)[OF wf i, of idx] S idx by simp
  next
    assume "i \<in> before ?S idx"
    then show False using pre eq by blast
  qed
qed

lemma insert_fresh_wf:
  assumes ok: "hash_ok hashf cmp" and wf: "table_wf hashf cmp m"
    and idx: "idx < nat (size' m)" "\<not> occupied m idx"
    and pre: "\<forall>j \<in> before (probe_seq (home hashf m key) (nat (size' m))) idx.
               occupied m j \<and> \<not> key_eq cmp (key_at m j) key"
    and nz: "key \<noteq> 0" "v \<noteq> 0"
    and sz: "size' m' = size' m"
    and el: "elements m' = elements m + 1"
    and ks: "keysInt m' = Some ((the (keysInt m))[idx := key])"
    and vs: "values' m' = Some ((the (values' m))[idx := v])"
    and hs: "cmp \<noteq> None \<longrightarrow> hashes m' = Some ((the (hashes m))[idx := int32 (hashf key (size' m))])"
  shows "table_wf hashf cmp m'"
    and "\<And>i. occupied m' i \<longleftrightarrow> i = idx \<or> occupied m i"
    and "\<And>i. key_at m' i = (if i = idx then key else key_at m i)"
    and "\<And>i. i < nat (size' m) \<Longrightarrow> the (values' m') ! i = (if i = idx then v else the (values' m) ! i)"
proof -
  let ?n = "nat (size' m)"
  from wf have ao: "arrays_ok cmp m" by (rule table_wf_arrays)
  then obtain ks0 vs0 where k0: "keysInt m = Some ks0" "length ks0 = ?n"
    and v0: "values' m = Some vs0" "length vs0 = ?n"
    unfolding arrays_ok_def by blast
  show occ: "\<And>i. occupied m' i \<longleftrightarrow> i = idx \<or> occupied m i"
    using idx nz v0 by (auto simp: occupied_def sz vs nth_list_update)
  show key: "\<And>i. key_at m' i = (if i = idx then key else key_at m i)"
    using idx k0 by (simp add: key_at_def ks nth_list_update)
  show val: "\<And>i. i < nat (size' m) \<Longrightarrow> the (values' m') ! i = (if i = idx then v else the (values' m) ! i)"
    using v0 by (simp add: vs nth_list_update)
  have hm: "\<And>k. home hashf m' k = home hashf m k" by (simp add: home_def sz)
  have ao': "arrays_ok cmp m'"
    using ao hs unfolding arrays_ok_def by (auto simp: sz ks vs)
  have fin: "finite {i. occupied m i}"
    by (rule finite_subset[of _ "{0..<?n}"]) (auto simp: occupied_def)
  have "{i. occupied m' i} = insert idx {i. occupied m i}" using occ by auto
  then have "card {i. occupied m' i} = card {i. occupied m i} + 1" using fin idx(2) by simp
  then have el': "elements m' = int (card {i. occupied m' i})"
    using wf el by (simp add: table_wf_def)
  have un: "\<forall>i < nat (size' m'). \<not> occupied m' i \<longrightarrow> key_at m' i = 0"
    using wf occ key unfolding table_wf_def by (auto simp: sz)
  have pr: "key_at m' i \<noteq> 0 \<and>
        (cmp \<noteq> None \<longrightarrow> the (hashes m') ! i = int32 (hashf (key_at m' i) (size' m'))) \<and>
        (\<forall>j \<in> before (probe_seq (home hashf m' (key_at m' i)) (nat (size' m'))) i.
            occupied m' j \<and> \<not> key_eq cmp (key_at m' j) (key_at m' i))" if oi: "occupied m' i" for i
  proof (cases "i = idx")
    case True
    have "the (hashes m') ! idx = int32 (hashf key (size' m))" if "cmp \<noteq> None"
    proof -
      from ao that obtain hs0 where "hashes m = Some hs0" "length hs0 = ?n"
        unfolding arrays_ok_def by blast
      then show ?thesis using hs that idx by simp
    qed
    moreover have "occupied m' j \<and> \<not> key_eq cmp (key_at m' j) key"
      if "j \<in> before (probe_seq (home hashf m key) ?n) idx" for j
    proof -
      from pre that have "occupied m j" "\<not> key_eq cmp (key_at m j) key" by blast+
      moreover have "j \<noteq> idx" using \<open>occupied m j\<close> idx(2) by blast
      ultimately show ?thesis using occ key by simp
    qed
    ultimately show ?thesis using True nz key by (simp add: sz hm)
  next
    case False
    then have om: "occupied m i" using oi occ by simp
    have a: "key_at m i \<noteq> 0" using wf om unfolding table_wf_def by blast
    have b: "the (hashes m') ! i = int32 (hashf (key_at m i) (size' m))" if "cmp \<noteq> None"
    proof -
      have "the (hashes m) ! i = int32 (hashf (key_at m i) (size' m))"
        using wf om that unfolding table_wf_def by blast
      then show ?thesis using hs that False by simp
    qed
    have c: "occupied m' j \<and> \<not> key_eq cmp (key_at m' j) (key_at m i)"
      if "j \<in> before (probe_seq (home hashf m (key_at m i)) ?n) i" for j
    proof -
      from table_wf_probe[OF wf om that] have "occupied m j" "\<not> key_eq cmp (key_at m j) (key_at m i)" .
      moreover have "j \<noteq> idx" using \<open>occupied m j\<close> idx(2) by blast
      ultimately show ?thesis using occ key by simp
    qed
    show ?thesis using False a b c key by (simp add: sz hm)
  qed
  show "table_wf hashf cmp m'"
    unfolding table_wf_def using ao' wf el' un pr by (simp add: table_wf_def sz)
qed

lemma rd_nat: "i < length xs \<Longrightarrow> rd (Some xs) (int i) = Some (xs ! i)"
  by (simp add: rd_def)

lemma wr_nat: "i < length xs \<Longrightarrow> wr (Some xs) (int i) v = Some (Some (xs[i := v]))"
  by (simp add: wr_def)

lemma overwrite_wf:
  assumes wf: "table_wf hashf cmp m"
    and idx: "occupied m idx"
    and nz: "v \<noteq> 0"
    and sz: "size' m' = size' m"
    and el: "elements m' = elements m"
    and ks: "keysInt m' = keysInt m"
    and hs: "hashes m' = hashes m"
    and vs: "values' m' = Some ((the (values' m))[idx := v])"
  shows "table_wf hashf cmp m'"
    and "\<And>i. occupied m' i \<longleftrightarrow> occupied m i"
    and "\<And>i. key_at m' i = key_at m i"
    and "\<And>i. i < nat (size' m) \<Longrightarrow> the (values' m') ! i = (if i = idx then v else the (values' m) ! i)"
proof -
  let ?n = "nat (size' m)"
  from wf have ao: "arrays_ok cmp m" by (rule table_wf_arrays)
  then obtain vs0 where v0: "values' m = Some vs0" "length vs0 = ?n"
    unfolding arrays_ok_def by blast
  show occ: "\<And>i. occupied m' i \<longleftrightarrow> occupied m i"
    using idx nz v0 by (auto simp: occupied_def sz vs nth_list_update)
  show key: "\<And>i. key_at m' i = key_at m i"
    by (simp add: key_at_def ks)
  show val: "\<And>i. i < nat (size' m) \<Longrightarrow> the (values' m') ! i = (if i = idx then v else the (values' m) ! i)"
    using v0 by (simp add: vs nth_list_update)
  have hm: "\<And>k. home hashf m' k = home hashf m k" by (simp add: home_def sz)
  have ao': "arrays_ok cmp m'"
    using ao unfolding arrays_ok_def by (auto simp: sz ks vs hs)
  have oc: "occupied m' = occupied m" using occ by auto
  have ka: "key_at m' = key_at m" using key by auto
  show "table_wf hashf cmp m'"
    using wf ao' unfolding table_wf_def by (simp add: sz el hs hm oc ka)
qed

lemma get_insert_fresh:
  assumes ok: "hash_ok hashf cmp" and wf: "table_wf hashf cmp m"
    and idx: "idx < nat (size' m)" "\<not> occupied m idx"
    and pre: "\<forall>j \<in> before (probe_seq (home hashf m key) (nat (size' m))) idx.
               occupied m j \<and> \<not> key_eq cmp (key_at m j) key"
    and wf': "table_wf hashf cmp m'"
    and occ: "\<And>i. occupied m' i \<longleftrightarrow> i = idx \<or> occupied m i"
    and key: "\<And>i. key_at m' i = (if i = idx then key else key_at m i)"
    and val: "\<And>i. i < nat (size' m) \<Longrightarrow> the (values' m') ! i = (if i = idx then v else the (values' m) ! i)"
  shows "table_get cmp m' k = (if key_eq cmp key k then v else table_get cmp m k)"
proof (cases "key_eq cmp key k")
  case True
  have "occupied m' idx" "key_eq cmp (key_at m' idx) k" using occ key True by simp_all
  from table_get_match[OF ok wf' this] show ?thesis using True val idx by simp
next
  case False
  show ?thesis
  proof (cases "\<exists>i. occupied m i \<and> key_eq cmp (key_at m i) k")
    case True
    then obtain i where i: "occupied m i" "key_eq cmp (key_at m i) k" by blast
    then have ne: "i \<noteq> idx" using idx by blast
    have "occupied m' i" "key_eq cmp (key_at m' i) k" using i ne occ key by simp_all
    from table_get_match[OF ok wf' this] table_get_match[OF ok wf i]
    show ?thesis using False ne val occupied_less[OF i(1)] by simp
  next
    case F2: False
    then have "table_get cmp m k = 0" by (intro table_get_none) blast
    moreover have "table_get cmp m' k = 0"
      using F2 False occ key by (intro table_get_none) auto
    ultimately show ?thesis using False by simp
  qed
qed

lemma get_overwrite:
  assumes ok: "hash_ok hashf cmp" and wf: "table_wf hashf cmp m"
    and idx: "occupied m idx" "key_eq cmp (key_at m idx) key"
    and wf': "table_wf hashf cmp m'"
    and occ: "\<And>i. occupied m' i \<longleftrightarrow> occupied m i"
    and key: "\<And>i. key_at m' i = key_at m i"
    and val: "\<And>i. i < nat (size' m) \<Longrightarrow> the (values' m') ! i = (if i = idx then v else the (values' m) ! i)"
  shows "table_get cmp m' k = (if key_eq cmp key k then v else table_get cmp m k)"
proof (cases "key_eq cmp key k")
  case True
  then have "key_eq cmp (key_at m idx) k" using hash_okD(4)[OF ok idx(2)] by blast
  then have "occupied m' idx" "key_eq cmp (key_at m' idx) k" using occ key idx by simp_all
  from table_get_match[OF ok wf' this] show ?thesis using True val occupied_less[OF idx(1)] by simp
next
  case False
  show ?thesis
  proof (cases "\<exists>i. occupied m i \<and> key_eq cmp (key_at m i) k")
    case True
    then obtain i where i: "occupied m i" "key_eq cmp (key_at m i) k" by blast
    have ne: "i \<noteq> idx"
    proof
      assume "i = idx"
      then have "key_eq cmp (key_at m idx) k" using i by simp
      moreover have "key_eq cmp key (key_at m idx)" using hash_okD(3)[OF ok idx(2)] .
      ultimately have "key_eq cmp key k" using hash_okD(4)[OF ok] by blast
      with False show False by simp
    qed
    have "occupied m' i" "key_eq cmp (key_at m' i) k" using i occ key by simp_all
    from table_get_match[OF ok wf' this] table_get_match[OF ok wf i]
    show ?thesis using False ne val occupied_less[OF i(1)] by simp
  next
    case F2: False
    then have "table_get cmp m k = 0" by (intro table_get_none) blast
    moreover have "table_get cmp m' k = 0"
      using F2 occ key by (intro table_get_none) auto
    ultimately show ?thesis using False by simp
  qed
qed

lemma Add_slot_spec:
  assumes ok: "hash_ok hashf cmp" and wf: "table_wf hashf cmp m"
    and room: "elements m < size' m"
    and nz: "key \<noteq> 0" "(if valuesF then value else 1) \<noteq> 0"
  shows "\<exists>p m'. generalmapAdd_slot m key value hashf cmp valuesF = Some (p, m') \<and>
           table_wf hashf cmp m' \<and> size' m' = size' m \<and>
           (p \<longleftrightarrow> table_get cmp m key \<noteq> 0) \<and>
           elements m' = elements m + (if p then 0 else 1) \<and>
           (\<forall>k. table_get cmp m' k =
                  (if key_eq cmp key k then (if valuesF then value else 1) else table_get cmp m k))"
proof -
  let ?h = "int32 (hashf key (size' m))"
  let ?n = "nat (size' m)"
  let ?v = "if valuesF then value else 1"
  from Find_wf[OF ok wf room, of key] obtain idx where
    F: "generalmapFind m key ?h cmp = Some (int idx)" and il: "idx < ?n"
    and st: "\<not> occupied m idx \<or> key_eq cmp (key_at m idx) key"
    and pre: "\<forall>j \<in> before (probe_seq (home hashf m key) ?n) idx.
               occupied m j \<and> \<not> key_eq cmp (key_at m j) key"
    by blast
  from wf have ao: "arrays_ok cmp m" by (rule table_wf_arrays)
  then obtain ks0 vs0 where k0: "keysInt m = Some ks0" "length ks0 = ?n"
    and v0: "values' m = Some vs0" "length vs0 = ?n"
    unfolding arrays_ok_def by blast
  have ir: "0 \<le> int idx" "int idx < size' m" using il by simp_all
  have il2: "idx < length ks0" "idx < length vs0" using il k0 v0 by simp_all
  have rv: "rd (values' m) (int idx) = Some (vs0 ! idx)" using v0 il2 by (simp add: rd_nat)
  have sz: "size' m \<le> 2 ^ 30" using table_wf_size[OF wf] by simp
  show ?thesis
  proof (cases "occupied m idx")
    case False
    then have z: "vs0 ! idx = 0" using il v0 by (simp add: occupied_def)
    have e1: "int32 (elements m + 1) = elements m + 1"
    proof (rule int32_id)
      have "0 \<le> elements m" using wf by (simp add: table_wf_def)
      then show "- (2 ^ 31) \<le> elements m + 1" by simp
      show "elements m + 1 < 2 ^ 31" using room sz by simp
    qed
    have wk: "wr (keysInt m) (int idx) key = Some (Some (ks0[idx := key]))"
      using k0 il2 by (simp add: wr_nat)
    have wv: "wr (values' m) (int idx) ?v = Some (Some (vs0[idx := ?v]))"
      using v0 il2 by (simp add: wr_nat)
    define m' where "m' = (if cmp \<noteq> None
        then m\<lparr>keysInt := Some (ks0[idx := key]), elements := elements m + 1,
              hashes := Some ((the (hashes m))[idx := ?h]), values' := Some (vs0[idx := ?v])\<rparr>
        else m\<lparr>keysInt := Some (ks0[idx := key]), elements := elements m + 1,
              values' := Some (vs0[idx := ?v])\<rparr>)"
    have run: "generalmapAdd_slot m key value hashf cmp valuesF = Some (False, m')"
    proof (cases "cmp = None")
      case True
      show ?thesis using True F rv z wk wv
        by (simp add: generalmapAdd_slot_def Let_def e1 m'_def)
    next
      case F2: False
      with ao obtain hs0 where h0: "hashes m = Some hs0" "length hs0 = ?n"
        unfolding arrays_ok_def by blast
      have wh: "wr (hashes m) (int idx) ?h = Some (Some ((the (hashes m))[idx := ?h]))"
        using h0 il by (simp add: wr_nat)
      show ?thesis using F2 F rv z wk wv wh
        by (simp add: generalmapAdd_slot_def Let_def e1 m'_def)
    qed
    have f1: "size' m' = size' m" "elements m' = elements m + 1"
      "keysInt m' = Some ((the (keysInt m))[idx := key])"
      "values' m' = Some ((the (values' m))[idx := ?v])"
      "cmp \<noteq> None \<longrightarrow> hashes m' = Some ((the (hashes m))[idx := ?h])"
      by (simp_all add: m'_def k0 v0)
    note ins = insert_fresh_wf[OF ok wf il False pre nz f1]
    have g: "\<And>k. table_get cmp m' k = (if key_eq cmp key k then ?v else table_get cmp m k)"
      using get_insert_fresh[OF ok wf il False pre ins] .
    have "\<forall>i. occupied m i \<longrightarrow> \<not> key_eq cmp (key_at m i) key"
      using no_match_if_stop_unoccupied[OF ok wf il False pre] by blast
    then have "table_get cmp m key = 0" by (rule table_get_none)
    then show ?thesis using run ins(1) f1(1,2) g
      by (intro exI[of _ False] exI[of _ m']) simp
  next
    case True
    then have eq: "key_eq cmp (key_at m idx) key" using st by simp
    have nzv: "vs0 ! idx \<noteq> 0" using True v0 by (simp add: occupied_def)
    have im: "generalmapIsMatch m (int idx) key ?h cmp = Some True"
      using IsMatch_ok[OF ao ir, of key ?h] is_match_occupied[OF ok wf True, of key] eq by simp
    have wv: "wr (values' m) (int idx) ?v = Some (Some (vs0[idx := ?v]))"
      using v0 il2 by (simp add: wr_nat)
    define m' where "m' = m\<lparr>values' := Some (vs0[idx := ?v])\<rparr>"
    have run: "generalmapAdd_slot m key value hashf cmp valuesF = Some (True, m')"
      using F rv nzv im wv by (simp add: generalmapAdd_slot_def Let_def m'_def)
    have f1: "size' m' = size' m" "elements m' = elements m" "keysInt m' = keysInt m"
      "hashes m' = hashes m" "values' m' = Some ((the (values' m))[idx := ?v])"
      by (simp_all add: m'_def v0)
    note ov = overwrite_wf[OF wf True nz(2) f1]
    have g: "\<And>k. table_get cmp m' k = (if key_eq cmp key k then ?v else table_get cmp m k)"
      using get_overwrite[OF ok wf True eq ov] .
    have "table_get cmp m key = vs0 ! idx" using table_get_match[OF ok wf True eq] v0 by simp
    then show ?thesis using run ov(1) f1(1,2) g nzv
      by (intro exI[of _ True] exI[of _ m']) simp
  qed
qed

lemma pow2ize_exp:
  assumes "k \<le> 30"
  shows "pow2ize (2 ^ k) = 2 ^ k"
proof -
  have b: "(1::int) \<le> 2 ^ k" "(2::int) ^ k \<le> 2 ^ 30" using exp_bounds[OF assms] by simp_all
  from pow2ize_pos[OF b] obtain k' where
    k': "pow2ize (2 ^ k) = 2 ^ k'" "(2::int) ^ k \<le> 2 ^ k'" "(2::int) ^ k' < 2 * 2 ^ k" by blast
  have "k \<le> k'" using k'(2) by simp
  moreover have "(2::int) ^ k' < 2 ^ Suc k" using k'(3) by simp
  then have "k' < Suc k" by (rule power_less_imp_less_exp[rotated]) simp
  ultimately have "k' = k" by simp
  with k'(1) show ?thesis by simp
qed

lemma generalmapInit_fields:
  assumes "j \<le> 30"
  shows "size' (generalmapInit (2 ^ j) libc_calloc h) = 2 ^ j"
    and "elements (generalmapInit (2 ^ j) libc_calloc h) = 0"
    and "keysInt (generalmapInit (2 ^ j) libc_calloc h) = Some (replicate (2 ^ j) 0)"
    and "values' (generalmapInit (2 ^ j) libc_calloc h) = Some (replicate (2 ^ j) 0)"
    and "hashes (generalmapInit (2 ^ j) libc_calloc h) = (if h then Some (replicate (2 ^ j) 0) else None)"
proof -
  have p: "pow2ize (2 ^ j) = 2 ^ j" using pow2ize_exp[OF assms] .
  have n: "nat (2 ^ j) = 2 ^ j" by (simp add: nat_power_eq)
  show "size' (generalmapInit (2 ^ j) libc_calloc h) = 2 ^ j" by (simp add: p)
  show "elements (generalmapInit (2 ^ j) libc_calloc h) = 0" by (simp add: generalmapInit_def Let_def)
  show "keysInt (generalmapInit (2 ^ j) libc_calloc h) = Some (replicate (2 ^ j) 0)"
    "values' (generalmapInit (2 ^ j) libc_calloc h) = Some (replicate (2 ^ j) 0)"
    "hashes (generalmapInit (2 ^ j) libc_calloc h) = (if h then Some (replicate (2 ^ j) 0) else None)"
    by (simp_all add: generalmapInit_def Let_def p libc_calloc_def n)
qed

lemma fresh_table_inv:
  assumes "j \<le> 30"
  shows "table_inv hashf cmp valuesF (generalmapInit (2 ^ j) libc_calloc (cmp \<noteq> None))"
    and "table_get cmp (generalmapInit (2 ^ j) libc_calloc (cmp \<noteq> None)) k = 0"
proof -
  define m where "m = generalmapInit (2 ^ j) libc_calloc (cmp \<noteq> None)"
  note f = generalmapInit_fields[OF assms, of "cmp \<noteq> None", folded m_def]
  have n: "nat (size' m) = 2 ^ j" by (simp add: f(1) nat_power_eq)
  have no: "\<not> occupied m i" for i
    by (auto simp: occupied_def f(4) n)
  have g: "table_get cmp m k = 0" for k using no by (intro table_get_none) simp
  have ao: "arrays_ok cmp m"
    unfolding arrays_ok_def by (simp add: f n)
  have ka: "key_at m i = 0" if "i < nat (size' m)" for i
    using that by (simp add: key_at_def f(3) n)
  have ce: "{i. occupied m i} = {}" using no by simp
  have "table_wf hashf cmp m"
    unfolding table_wf_def using ao no assms f(1,2) ka by (auto simp: ce)
  then have "table_inv hashf cmp valuesF m"
    by (simp add: table_inv_def f set_table_def g)
  then show "table_inv hashf cmp valuesF (generalmapInit (2 ^ j) libc_calloc (cmp \<noteq> None))"
    and "table_get cmp (generalmapInit (2 ^ j) libc_calloc (cmp \<noteq> None)) k = 0"
    using g by (simp_all add: m_def)
qed

section \<open>Add and Merge on well-formed tables\<close>

definition rest :: "generalmap \<Rightarrow> int \<Rightarrow> nat set" where
  "rest src index = {i. occupied src i \<and> nat index \<le> i}"

definition dup_ok :: "generalmapCmp option \<Rightarrow> generalmapDup option \<Rightarrow> bool" where
  "dup_ok cmp dup \<longleftrightarrow> (\<forall>d k. dup = Some d \<longrightarrow> k \<noteq> 0 \<longrightarrow> d k \<noteq> 0 \<and> key_eq cmp k (d k))"

definition add_post ::
  "generalmapHash \<Rightarrow> generalmapCmp option \<Rightarrow> bool \<Rightarrow> generalmap \<Rightarrow> int \<Rightarrow> int
     \<Rightarrow> (bool \<times> generalmap) option \<Rightarrow> bool" where
  "add_post hashf cmp valuesF m key value r \<longleftrightarrow>
     (\<exists>p m'. r = Some (p, m') \<and>
        table_inv hashf cmp valuesF m' \<and>
        size' m' = (if size' m \<le> 2 * elements m + 1 then 2 * size' m else size' m) \<and>
        (p \<longleftrightarrow> table_get cmp m key \<noteq> 0) \<and>
        elements m' = elements m + (if p then 0 else 1) \<and>
        (\<forall>k. table_get cmp m' k =
               (if key_eq cmp key k then (if valuesF then value else 1) else table_get cmp m k)))"

definition merge_post ::
  "generalmapHash \<Rightarrow> generalmapCmp option \<Rightarrow> bool \<Rightarrow> generalmap \<Rightarrow> generalmap \<Rightarrow> int
     \<Rightarrow> generalmap option \<Rightarrow> bool" where
  "merge_post hashf cmp valuesF dest src index r \<longleftrightarrow>
     (\<exists>dest'. r = Some dest' \<and>
        table_inv hashf cmp valuesF dest' \<and>
        (\<forall>k. table_get cmp dest' k =
               (if \<exists>i \<in> rest src index. key_eq cmp (key_at src i) k
                then table_get cmp src k else table_get cmp dest k)) \<and>
        elements dest' =
          elements dest + int (card {i \<in> rest src index. table_get cmp dest (key_at src i) = 0}) \<and>
        (2 * (elements dest + int (card (rest src index))) \<le> size' dest \<longrightarrow>
           size' dest' = size' dest))"

lemma rest_finite [simp]: "finite (rest src index)"
  by (rule finite_subset[of _ "{0..<nat (size' src)}"]) (auto simp: rest_def occupied_def)

lemma rest_empty: "size' src \<le> index \<Longrightarrow> rest src index = {}"
  by (auto simp: rest_def occupied_def)

lemma rest_skip:
  assumes "0 \<le> index" "\<not> occupied src (nat index)"
  shows "rest src index = rest src (index + 1)"
proof -
  have "nat (index + 1) = Suc (nat index)" using assms(1) by simp
  then show ?thesis using assms(2) unfolding rest_def
    by (auto simp: Suc_le_eq le_less)
qed

lemma rest_step:
  assumes "0 \<le> index" "occupied src (nat index)"
  shows "rest src index = insert (nat index) (rest src (index + 1))"
    and "nat index \<notin> rest src (index + 1)"
proof -
  have s: "nat (index + 1) = Suc (nat index)" using assms(1) by simp
  show "rest src index = insert (nat index) (rest src (index + 1))"
    using assms(2) unfolding rest_def s by (auto simp: Suc_le_eq le_less)
  show "nat index \<notin> rest src (index + 1)" unfolding rest_def s by simp
qed

lemma rest_zero: "rest src 0 = {i. occupied src i}"
  by (simp add: rest_def)

lemma table_get_cong:
  assumes ok: "hash_ok hashf cmp" and wf: "table_wf hashf cmp m" and eq: "key_eq cmp a b"
  shows "table_get cmp m a = table_get cmp m b"
proof (cases "\<exists>i. occupied m i \<and> key_eq cmp (key_at m i) a")
  case True
  then obtain i where i: "occupied m i" "key_eq cmp (key_at m i) a" by blast
  then have "key_eq cmp (key_at m i) b" using hash_okD(4)[OF ok] eq by blast
  then show ?thesis using table_get_match[OF ok wf i] table_get_match[OF ok wf i(1)] by simp
next
  case False
  have "\<not> key_eq cmp (key_at m i) b" if "occupied m i" for i
  proof
    assume "key_eq cmp (key_at m i) b"
    then have "key_eq cmp (key_at m i) a" using hash_okD(3,4)[OF ok] eq by blast
    with False that show False by blast
  qed
  then show ?thesis using False table_get_none[of m cmp a] table_get_none[of m cmp b] by auto
qed

lemma table_get_occupied:
  assumes ok: "hash_ok hashf cmp" and wf: "table_wf hashf cmp m" and i: "occupied m i"
  shows "table_get cmp m (key_at m i) = the (values' m) ! i" "table_get cmp m (key_at m i) \<noteq> 0"
proof -
  show "table_get cmp m (key_at m i) = the (values' m) ! i"
    using table_get_match[OF ok wf i hash_okD(2)[OF ok]] .
  then show "table_get cmp m (key_at m i) \<noteq> 0" using i by (simp add: occupied_def)
qed

lemma table_wf_elements_nonneg: "table_wf hashf cmp m \<Longrightarrow> 0 \<le> elements m"
  by (simp add: table_wf_def)

lemma table_wf_key_zero:
  assumes "table_wf hashf cmp m" "i < nat (size' m)"
  shows "occupied m i \<longleftrightarrow> key_at m i \<noteq> 0"
  using assms unfolding table_wf_def by blast

lemma int32_small: "0 \<le> x \<Longrightarrow> x < 2 ^ 30 \<Longrightarrow> int32 x = x"
  by (rule int32_id) simp_all

lemma Add_no_growth:
  assumes ok: "hash_ok hashf cmp" and inv: "table_inv hashf cmp valuesF m"
    and small: "elements m < 2 ^ 28"
    and ng: "2 * elements m + 1 < size' m"
    and nz: "key \<noteq> 0" "valuesF \<longrightarrow> value \<noteq> 0"
  shows "add_post hashf cmp valuesF m key value (generalmapAdd_slot m key value hashf cmp valuesF)"
proof -
  from inv have wf: "table_wf hashf cmp m" and st: "\<not> valuesF \<longrightarrow> set_table cmp m"
    by (simp_all add: table_inv_def)
  have e0: "0 \<le> elements m" using table_wf_elements_nonneg[OF wf] .
  have room: "elements m < size' m" using ng e0 by simp
  have nzv: "(if valuesF then value else 1) \<noteq> 0" using nz by simp
  from Add_slot_spec[OF ok wf room nz(1) nzv] obtain p m' where
    r: "generalmapAdd_slot m key value hashf cmp valuesF = Some (p, m')"
    and wf': "table_wf hashf cmp m'" and sz: "size' m' = size' m"
    and p: "p \<longleftrightarrow> table_get cmp m key \<noteq> 0"
    and el: "elements m' = elements m + (if p then 0 else 1)"
    and g: "\<forall>k. table_get cmp m' k =
                  (if key_eq cmp key k then (if valuesF then value else 1) else table_get cmp m k)"
    by blast
  have ld: "2 * elements m' \<le> size' m'" using el sz ng by simp
  have st': "\<not> valuesF \<longrightarrow> set_table cmp m'"
    using st g by (auto simp: set_table_def)
  show ?thesis
    unfolding add_post_def using r wf' sz p el g ld st' ng
    by (intro exI[of _ p] exI[of _ m']) (simp add: table_inv_def)
qed

lemma growth_arith:
  fixes e s :: int
  assumes "0 \<le> e" "e < 2 ^ 28"
  shows "int32 (int32 (e * 2) + 1) = 2 * e + 1"
proof -
  have "int32 (e * 2) = e * 2" using assms by (intro int32_id) simp_all
  moreover have "int32 (e * 2 + 1) = e * 2 + 1" using assms by (intro int32_id) simp_all
  ultimately show ?thesis by simp
qed

lemma Add_Merge_spec:
  shows "hash_ok hashf cmp \<Longrightarrow> table_inv hashf cmp valuesF m \<Longrightarrow> elements m < 2 ^ 28 \<Longrightarrow>
       key \<noteq> 0 \<Longrightarrow> (valuesF \<longrightarrow> value \<noteq> 0) \<Longrightarrow>
       add_post hashf cmp valuesF m key value (generalmapAdd m key value hashf cmp valuesF)"
    and "hash_ok hashf cmp \<Longrightarrow> table_inv hashf cmp valuesF dest \<Longrightarrow> table_wf hashf cmp src \<Longrightarrow>
       (\<not> valuesF \<longrightarrow> set_table cmp src) \<Longrightarrow> dup_ok cmp dup \<Longrightarrow> 0 \<le> index \<Longrightarrow>
       elements dest + int (card (rest src index)) \<le> 2 ^ 28 \<Longrightarrow>
       merge_post hashf cmp valuesF dest src index
         (generalmapMerge_loop dest src hashf cmp dup valuesF index)"
proof (induction m key "value" hashf cmp valuesF and dest src hashf cmp dup valuesF index
    rule: generalmapAdd_generalmapMerge_loop.induct)
  case (1 m key "value" hashf cmp valuesF)
  note ok = \<open>hash_ok hashf cmp\<close> and inv = \<open>table_inv hashf cmp valuesF m\<close>
    and small = \<open>elements m < 2 ^ 28\<close> and nzk = \<open>key \<noteq> 0\<close> and nzv = \<open>valuesF \<longrightarrow> value \<noteq> 0\<close>
  from inv have wf: "table_wf hashf cmp m" and ld: "2 * elements m \<le> size' m"
    and st: "\<not> valuesF \<longrightarrow> set_table cmp m"
    by (simp_all add: table_inv_def)
  have e0: "0 \<le> elements m" using table_wf_elements_nonneg[OF wf] .
  have ga: "int32 (int32 (elements m * 2) + 1) = 2 * elements m + 1"
    using growth_arith[OF e0 small] .
  show ?case
  proof (cases "size' m \<le> 2 * elements m + 1")
    case False
    then have "generalmapAdd m key value hashf cmp valuesF =
        generalmapAdd_slot m key value hashf cmp valuesF"
      by (subst generalmapAdd.simps) (simp add: ga)
    moreover have "2 * elements m + 1 < size' m" using False by simp
    ultimately show ?thesis using Add_no_growth[OF ok inv small _ nzk nzv] by simp
  next
    case True
    from wf obtain j where j: "j \<le> 30" "size' m = 2 ^ j" unfolding table_wf_def by blast
    have "(2::int) ^ j < 2 ^ 30" using True small j(2) by simp
    then have "j < 30" by (rule power_less_imp_less_exp[rotated]) simp
    then have sj: "Suc j \<le> 30" by simp
    have dbl: "size' m * 2 = 2 ^ Suc j" using j(2) by simp
    have i2: "int32 (size' m * 2) = 2 ^ Suc j" unfolding dbl using sj by (rule int32_exp)
    define new0 where "new0 = generalmapInit (2 ^ Suc j) libc_calloc (cmp \<noteq> None)"
    note fr = fresh_table_inv(1)[OF sj, of hashf cmp valuesF, folded new0_def]
      fresh_table_inv(2)[OF sj, of cmp, folded new0_def]
    note ff = generalmapInit_fields[OF sj, of "cmp \<noteq> None", folded new0_def]
    have cond: "size' m \<le> int32 (int32 (elements m * 2) + 1)" using True ga by simp
    have x: "new0 = generalmapInit (int32 (size' m * 2)) libc_calloc (cmp \<noteq> None)"
      by (simp add: new0_def i2)
    have bound: "elements new0 + int (card (rest m 0)) \<le> 2 ^ 28"
      using wf small by (simp add: ff(2) rest_zero table_wf_def)
    have "merge_post hashf cmp valuesF new0 m 0
        (generalmapMerge_loop new0 m hashf cmp None valuesF 0)"
      using "1.IH"[OF cond x ok fr(1) wf st _ _ bound] by (simp add: dup_ok_def)
    then obtain new1 where
      mr: "generalmapMerge_loop new0 m hashf cmp None valuesF 0 = Some new1"
      and inv1: "table_inv hashf cmp valuesF new1"
      and g1: "\<forall>k. table_get cmp new1 k =
               (if \<exists>i \<in> rest m 0. key_eq cmp (key_at m i) k
                then table_get cmp m k else table_get cmp new0 k)"
      and el1: "elements new1 =
          elements new0 + int (card {i \<in> rest m 0. table_get cmp new0 (key_at m i) = 0})"
      and sz1: "2 * (elements new0 + int (card (rest m 0))) \<le> size' new0 \<longrightarrow>
           size' new1 = size' new0"
      unfolding merge_post_def by blast
    have g1': "table_get cmp new1 k = table_get cmp m k" for k
    proof (cases "\<exists>i \<in> rest m 0. key_eq cmp (key_at m i) k")
      case True then show ?thesis using g1 by simp
    next
      case False
      then have "table_get cmp m k = 0" by (intro table_get_none) (auto simp: rest_zero)
      then show ?thesis using g1 False fr(2) by simp
    qed
    have el1': "elements new1 = elements m"
      using el1 wf by (simp add: ff(2) fr(2) rest_zero table_wf_def)
    have sz1': "size' new1 = 2 * size' m"
    proof -
      have "int (card (rest m 0)) = elements m" using wf by (simp add: rest_zero table_wf_def)
      then have "2 * (elements new0 + int (card (rest m 0))) \<le> size' new0"
        using ld j(2) by (simp add: ff(1,2))
      then show ?thesis using sz1 ff(1) dbl by simp
    qed
    have mr': "generalmapMerge_loop (generalmapInit (int32 (size' m * 2)) libc_calloc (cmp \<noteq> None))
        m hashf cmp None valuesF 0 = Some new1"
      using mr unfolding x .
    have run: "generalmapAdd m key value hashf cmp valuesF =
        generalmapAdd_slot new1 key value hashf cmp valuesF"
      using cond mr' by (subst generalmapAdd.simps) (simp split: prod.splits)
    have s1: "1 \<le> size' m" using table_wf_size[OF wf] by simp
    have "2 * elements m + 1 < 2 * size' m" using ld s1 by presburger
    then have ng1: "2 * elements new1 + 1 < size' new1" using el1' sz1' by simp
    have small1: "elements new1 < 2 ^ 28" using el1' small by simp
    from Add_no_growth[OF ok inv1 small1 ng1 nzk nzv] obtain p m' where
      r: "generalmapAdd_slot new1 key value hashf cmp valuesF = Some (p, m')"
      and inv': "table_inv hashf cmp valuesF m'"
      and sz': "size' m' = (if size' new1 \<le> 2 * elements new1 + 1 then 2 * size' new1 else size' new1)"
      and p: "p \<longleftrightarrow> table_get cmp new1 key \<noteq> 0"
      and el': "elements m' = elements new1 + (if p then 0 else 1)"
      and g': "\<forall>k. table_get cmp m' k =
               (if key_eq cmp key k then (if valuesF then value else 1) else table_get cmp new1 k)"
      unfolding add_post_def by blast
    have "size' m' = 2 * size' m" using sz' ng1 sz1' by simp
    then show ?thesis
      unfolding add_post_def using run r inv' p el' g' g1' el1' True
      by (intro exI[of _ p] exI[of _ m']) simp
  qed
next
  case (2 dest src hashf cmp dup valuesF index)
  note ok = \<open>hash_ok hashf cmp\<close> and inv = \<open>table_inv hashf cmp valuesF dest\<close>
    and wfs = \<open>table_wf hashf cmp src\<close> and sts = \<open>\<not> valuesF \<longrightarrow> set_table cmp src\<close>
    and dk = \<open>dup_ok cmp dup\<close> and i0 = \<open>0 \<le> index\<close>
    and bound = \<open>elements dest + int (card (rest src index)) \<le> 2 ^ 28\<close>
  from inv have wfd: "table_wf hashf cmp dest" by (simp add: table_inv_def)
  show ?case
  proof (cases "index < size' src")
    case False
    then have "generalmapMerge_loop dest src hashf cmp dup valuesF index = Some dest"
      by (subst generalmapMerge_loop.simps) simp
    moreover have "rest src index = {}" using False by (intro rest_empty) simp
    ultimately show ?thesis unfolding merge_post_def using inv by simp
  next
    case True
    let ?i = "nat index"
    have il: "?i < nat (size' src)" using True i0 by simp
    have rk: "rd (keysInt src) index = Some (key_at src ?i)"
      using rd_keys_ok[OF table_wf_arrays[OF wfs] i0 True] by (simp add: key_at_def)
    show ?thesis
    proof (cases "key_at src ?i = 0")
      case kz: True
      then have no: "\<not> occupied src ?i" using table_wf_key_zero[OF wfs il] by simp
      have rs: "rest src index = rest src (index + 1)" using rest_skip[OF i0 no] .
      have "merge_post hashf cmp valuesF dest src (index + 1)
          (generalmapMerge_loop dest src hashf cmp dup valuesF (index + 1))"
        using "2.IH"(1)[OF True rk kz ok inv wfs sts dk] i0 bound rs by simp
      moreover have "generalmapMerge_loop dest src hashf cmp dup valuesF index =
          generalmapMerge_loop dest src hashf cmp dup valuesF (index + 1)"
        using True rk kz by (subst generalmapMerge_loop.simps) simp
      ultimately show ?thesis unfolding merge_post_def rs by simp
    next
      case kn: False
      then have oc: "occupied src ?i" using table_wf_key_zero[OF wfs il] by simp
      note rs = rest_step[OF i0 oc]
      define k where "k = key_at src ?i"
      define key' where "key' = (case dup of None \<Rightarrow> k | Some d \<Rightarrow> d k)"
      have k': "key' \<noteq> 0" "key_eq cmp k key'"
        using dk kn hash_okD(2)[OF ok] unfolding key'_def k_def dup_ok_def
        by (auto split: option.splits)
      define aa where "aa = (if valuesF then the (values' src) ! ?i else 0)"
      have rv: "(if valuesF then rd (values' src) index else Some 0) = Some aa"
        using rd_values_ok[OF table_wf_arrays[OF wfs] i0 True] by (simp add: aa_def)
      have gs: "table_get cmp src k = the (values' src) ! ?i" "table_get cmp src k \<noteq> 0"
        using table_get_occupied[OF ok wfs oc] by (simp_all add: k_def)
      have vv: "(if valuesF then aa else 1) = table_get cmp src k"
      proof (cases valuesF)
        case True then show ?thesis using gs by (simp add: aa_def)
      next
        case False
        then have "table_get cmp src k = 0 \<or> table_get cmp src k = 1"
          using sts by (simp add: set_table_def)
        with gs(2) False show ?thesis by simp
      qed
      have nza: "valuesF \<longrightarrow> aa \<noteq> 0" using gs by (simp add: aa_def)
      have c1: "card (rest src index) = Suc (card (rest src (index + 1)))"
        using rs by simp
      have e0: "0 \<le> elements dest" using table_wf_elements_nonneg[OF wfd] .
      have small: "elements dest < 2 ^ 28" using bound c1 by simp
      have kx: "key' = (case dup of None \<Rightarrow> key_at src ?i | Some d \<Rightarrow> d (key_at src ?i))"
        unfolding key'_def k_def by (rule refl)
      have "add_post hashf cmp valuesF dest key' aa (generalmapAdd dest key' aa hashf cmp valuesF)"
        using "2.IH"(2)[OF True rk kn kx rv ok inv small k'(1) nza] .
      then obtain p d1 where
        ar: "generalmapAdd dest key' aa hashf cmp valuesF = Some (p, d1)"
        and inv1: "table_inv hashf cmp valuesF d1"
        and sz1: "size' d1 = (if size' dest \<le> 2 * elements dest + 1 then 2 * size' dest else size' dest)"
        and p: "p \<longleftrightarrow> table_get cmp dest key' \<noteq> 0"
        and el1: "elements d1 = elements dest + (if p then 0 else 1)"
        and g1: "\<forall>x. table_get cmp d1 x =
               (if key_eq cmp key' x then (if valuesF then aa else 1) else table_get cmp dest x)"
        unfolding add_post_def by blast
      have bound1: "elements d1 + int (card (rest src (index + 1))) \<le> 2 ^ 28"
        using bound c1 el1 by simp
      have i1: "0 \<le> index + 1" using i0 by simp
      have "merge_post hashf cmp valuesF d1 src (index + 1)
          (generalmapMerge_loop d1 src hashf cmp dup valuesF (index + 1))"
        using "2.IH"(3)[OF True rk kn kx rv ar refl ok inv1 wfs sts dk i1 bound1] .
      then obtain dest' where
        mr: "generalmapMerge_loop d1 src hashf cmp dup valuesF (index + 1) = Some dest'"
        and inv': "table_inv hashf cmp valuesF dest'"
        and g': "\<forall>x. table_get cmp dest' x =
               (if \<exists>i \<in> rest src (index + 1). key_eq cmp (key_at src i) x
                then table_get cmp src x else table_get cmp d1 x)"
        and el': "elements dest' =
          elements d1 + int (card {i \<in> rest src (index + 1). table_get cmp d1 (key_at src i) = 0})"
        and sz': "2 * (elements d1 + int (card (rest src (index + 1)))) \<le> size' d1 \<longrightarrow>
           size' dest' = size' d1"
        unfolding merge_post_def by blast
      have run: "generalmapMerge_loop dest src hashf cmp dup valuesF index = Some dest'"
        using True rk kn rv ar mr
        by (subst generalmapMerge_loop.simps) (simp add: kx[symmetric])
      have G: "table_get cmp dest' x =
               (if \<exists>i \<in> rest src index. key_eq cmp (key_at src i) x
                then table_get cmp src x else table_get cmp dest x)" for x
      proof (cases "\<exists>i \<in> rest src (index + 1). key_eq cmp (key_at src i) x")
        case True
        then show ?thesis using g' rs(1) by auto
      next
        case F1: False
        show ?thesis
        proof (cases "key_eq cmp k x")
          case True
          then have "key_eq cmp key' x" using hash_okD(3,4)[OF ok] k'(2) by blast
          then have "table_get cmp dest' x = table_get cmp src k" using g' g1 F1 vv by simp
          also have "\<dots> = table_get cmp src x" using table_get_cong[OF ok wfs True] .
          finally show ?thesis using True rs(1) by (auto simp: k_def)
        next
          case F2: False
          have "\<not> key_eq cmp key' x"
          proof
            assume "key_eq cmp key' x"
            then have "key_eq cmp k x" using hash_okD(4)[OF ok k'(2)] by blast
            with F2 show False by simp
          qed
          then have "table_get cmp dest' x = table_get cmp dest x" using g' g1 F1 by simp
          moreover have "\<not> (\<exists>i \<in> rest src index. key_eq cmp (key_at src i) x)"
            using F1 F2 rs(1) by (auto simp: k_def)
          ultimately show ?thesis by simp
        qed
      qed
      have same: "table_get cmp d1 (key_at src i) = table_get cmp dest (key_at src i)"
        if "i \<in> rest src (index + 1)" for i
      proof -
        have oi: "occupied src i" and ne: "i \<noteq> ?i" using that rs(2) by (auto simp: rest_def)
        have "\<not> key_eq cmp key' (key_at src i)"
        proof
          assume "key_eq cmp key' (key_at src i)"
          then have "key_eq cmp (key_at src ?i) (key_at src i)"
            using hash_okD(4)[OF ok k'(2)] by (simp add: k_def)
          from table_wf_unique[OF ok wfs oc oi this] ne show False by simp
        qed
        then show ?thesis using g1 by simp
      qed
      let ?A = "{i \<in> rest src (index + 1). table_get cmp dest (key_at src i) = 0}"
      have A1: "{i \<in> rest src (index + 1). table_get cmp d1 (key_at src i) = 0} = ?A"
        using same by auto
      have gk: "table_get cmp dest key' = table_get cmp dest k"
        using table_get_cong[OF ok wfd k'(2)] by simp
      have finA: "finite ?A" by simp
      have notA: "?i \<notin> ?A" using rs(2) by simp
      have A2: "{i \<in> rest src index. table_get cmp dest (key_at src i) = 0} =
          (if table_get cmp dest k = 0 then insert ?i ?A else ?A)"
        using rs(1) by (auto simp: k_def)
      have E: "elements dest' =
          elements dest + int (card {i \<in> rest src index. table_get cmp dest (key_at src i) = 0})"
        using el' el1 p gk finA notA unfolding A1 A2 by simp
      have S: "size' dest' = size' dest"
        if "2 * (elements dest + int (card (rest src index))) \<le> size' dest"
      proof -
        have "size' d1 = size' dest" using sz1 that c1 by simp
        moreover have "2 * (elements d1 + int (card (rest src (index + 1)))) \<le> size' d1"
          using that c1 el1 calculation by simp
        ultimately show ?thesis using sz' by simp
      qed
      show ?thesis unfolding merge_post_def using run inv' G E S by simp
    qed
  qed
qed

section \<open>Sequences of Add calls\<close>

lemma table_inv_room:
  assumes "table_inv hashf cmp valuesF m"
  shows "elements m < size' m"
proof -
  from assms have wf: "table_wf hashf cmp m" and ld: "2 * elements m \<le> size' m"
    by (simp_all add: table_inv_def)
  have "1 \<le> size' m" using table_wf_size[OF wf] by simp
  with ld show ?thesis by presburger
qed

lemma Map_spec:
  assumes ok: "hash_ok hashf cmp" and inv: "table_inv hashf cmp valuesF m"
  shows "generalmapMap m key hashf cmp = Some (table_get cmp m key)"
proof -
  let ?h = "int32 (hashf key (size' m))"
  let ?n = "nat (size' m)"
  from inv have wf: "table_wf hashf cmp m" by (simp add: table_inv_def)
  from Find_wf[OF ok wf table_inv_room[OF inv], of key] obtain idx where
    F: "generalmapFind m key ?h cmp = Some (int idx)" and il: "idx < ?n"
    and st: "\<not> occupied m idx \<or> key_eq cmp (key_at m idx) key"
    and pre: "\<forall>j \<in> before (probe_seq (home hashf m key) ?n) idx.
               occupied m j \<and> \<not> key_eq cmp (key_at m j) key"
    by blast
  have ao: "arrays_ok cmp m" using table_wf_arrays[OF wf] .
  have ir: "0 \<le> int idx" "int idx < size' m" using il by simp_all
  have im: "generalmapIsMatch m (int idx) key ?h cmp = Some (is_match m cmp key ?h idx)"
    using IsMatch_ok[OF ao ir, of key ?h] by simp
  have rv: "rd (values' m) (int idx) = Some (the (values' m) ! idx)"
    using rd_values_ok[OF ao ir] by simp
  show ?thesis
  proof (cases "occupied m idx")
    case True
    then have eq: "key_eq cmp (key_at m idx) key" using st by simp
    then have "is_match m cmp key ?h idx" using is_match_occupied[OF ok wf True, of key] by simp
    moreover have "table_get cmp m key = the (values' m) ! idx"
      using table_get_match[OF ok wf True eq] .
    ultimately show ?thesis using F im rv by (simp add: generalmapMap_def Let_def)
  next
    case False
    then have z: "the (values' m) ! idx = 0" using il by (simp add: occupied_def)
    have "\<forall>i. occupied m i \<longrightarrow> \<not> key_eq cmp (key_at m i) key"
      using no_match_if_stop_unoccupied[OF ok wf il False pre] by blast
    then have "table_get cmp m key = 0" by (rule table_get_none)
    then show ?thesis using F im rv z by (simp add: generalmapMap_def Let_def)
  qed
qed

lemma hashint_range:
  assumes "1 \<le> s" "s \<le> 2 ^ 30"
  shows "0 \<le> int32 (hashint key s) \<and> int32 (hashint key s) < s"
proof -
  have m: "int32 (s - 1) = s - 1" using assms by (intro int32_id) simp_all
  obtain h where h: "hashint key s = h AND (s - 1)"
    by (simp add: hashint_def Let_def m)
  define r where "r = h AND (s - 1)"
  have a: "0 \<le> r" unfolding r_def using assms by simp
  have b: "r \<le> s - 1" unfolding r_def using assms by (intro AND_upper2) simp
  have "int32 r = r" using a b assms by (intro int32_id) simp_all
  then show ?thesis using a b h by (simp add: r_def[symmetric])
qed

lemma hash_ok_hashint: "hash_ok hashint None"
  unfolding hash_ok_def using hashint_range by (auto simp: key_eq_def)

lemma generalmapInit_hint:
  assumes "1 \<le> hint" "hint \<le> 2 ^ 30"
  shows "\<exists>j\<le>30. generalmapInit hint c h = generalmapInit (2 ^ j) c h \<and>
           hint \<le> 2 ^ j \<and> (2::int) ^ j < 2 * hint"
proof -
  from pow2ize_pos[OF assms] obtain j where
    j: "j \<le> 30" "pow2ize hint = 2 ^ j" "hint \<le> 2 ^ j" "(2::int) ^ j < 2 * hint" by blast
  have "generalmapInit hint c h = generalmapInit (2 ^ j) c h"
    by (simp add: generalmapInit_def j(2) pow2ize_exp[OF j(1)])
  with j show ?thesis by blast
qed

fun generalmapAdd_all ::
  "generalmap \<Rightarrow> (int \<times> int) list \<Rightarrow> generalmapHash \<Rightarrow> generalmapCmp option \<Rightarrow> bool
     \<Rightarrow> generalmap option" where
  "generalmapAdd_all m [] hashf cmp valuesF = Some m"
| "generalmapAdd_all m ((key, value) # kvs) hashf cmp valuesF = do {
     (_, m') \<leftarrow> generalmapAdd m key value hashf cmp valuesF;
     generalmapAdd_all m' kvs hashf cmp valuesF }"

fun last_value :: "generalmapCmp option \<Rightarrow> bool \<Rightarrow> (int \<times> int) list \<Rightarrow> int \<Rightarrow> int \<Rightarrow> int" where
  "last_value cmp valuesF [] k d = d"
| "last_value cmp valuesF ((key, value) # kvs) k d =
     last_value cmp valuesF kvs k
       (if key_eq cmp key k then (if valuesF then value else 1) else d)"

fun distinct_keys :: "generalmapCmp option \<Rightarrow> int list \<Rightarrow> bool" where
  "distinct_keys cmp [] = True"
| "distinct_keys cmp (k # ks) = ((\<forall>k' \<in> set ks. \<not> key_eq cmp k k') \<and> distinct_keys cmp ks)"

definition valid_adds :: "bool \<Rightarrow> (int \<times> int) list \<Rightarrow> bool" where
  "valid_adds valuesF kvs \<longleftrightarrow> (\<forall>(key, value) \<in> set kvs. key \<noteq> 0 \<and> (valuesF \<longrightarrow> value \<noteq> 0))"

lemma Add_all_spec:
  "hash_ok hashf cmp \<Longrightarrow> table_inv hashf cmp valuesF m \<Longrightarrow> valid_adds valuesF kvs \<Longrightarrow>
   elements m + int (length kvs) \<le> 2 ^ 28 \<Longrightarrow>
   \<exists>m'. generalmapAdd_all m kvs hashf cmp valuesF = Some m' \<and>
        table_inv hashf cmp valuesF m' \<and>
        elements m' \<le> elements m + int (length kvs) \<and>
        (\<forall>k. table_get cmp m' k = last_value cmp valuesF kvs k (table_get cmp m k))"
proof (induction kvs arbitrary: m)
  case Nil
  then show ?case by simp
next
  case (Cons kv kvs)
  obtain key "value" where kv: "kv = (key, value)" by (cases kv)
  have nz: "key \<noteq> 0" "valuesF \<longrightarrow> value \<noteq> 0" and va: "valid_adds valuesF kvs"
    using Cons.prems(3) by (auto simp: valid_adds_def kv)
  have e0: "0 \<le> elements m" using Cons.prems(2) by (simp add: table_inv_def table_wf_def)
  have small: "elements m < 2 ^ 28" using Cons.prems(4) by simp
  from Add_Merge_spec(1)[OF Cons.prems(1,2) small nz] obtain p m1 where
    a: "generalmapAdd m key value hashf cmp valuesF = Some (p, m1)"
    and inv1: "table_inv hashf cmp valuesF m1"
    and el1: "elements m1 = elements m + (if p then 0 else 1)"
    and g1: "\<forall>k. table_get cmp m1 k =
               (if key_eq cmp key k then (if valuesF then value else 1) else table_get cmp m k)"
    unfolding add_post_def by blast
  have le1: "elements m1 \<le> elements m + 1" using el1 by simp
  have b1: "elements m1 + int (length kvs) \<le> 2 ^ 28" using Cons.prems(4) le1 by simp
  from Cons.IH[OF Cons.prems(1) inv1 va b1] obtain m' where
    r: "generalmapAdd_all m1 kvs hashf cmp valuesF = Some m'"
    and inv': "table_inv hashf cmp valuesF m'"
    and el': "elements m' \<le> elements m1 + int (length kvs)"
    and g': "\<forall>k. table_get cmp m' k = last_value cmp valuesF kvs k (table_get cmp m1 k)"
    by blast
  show ?case using a r inv' el' le1 g' g1 by (simp add: kv)
qed

lemma last_value_no_match:
  "(\<forall>(k', v') \<in> set kvs. \<not> key_eq cmp k' k) \<Longrightarrow> last_value cmp valuesF kvs k d = d"
  by (induction kvs arbitrary: d) auto

lemma last_value_distinct:
  assumes ok: "hash_ok hashf cmp"
  shows "distinct_keys cmp (map fst kvs) \<Longrightarrow> (k, v) \<in> set kvs \<Longrightarrow>
     last_value cmp valuesF kvs k d = (if valuesF then v else 1)"
proof (induction kvs arbitrary: d)
  case Nil
  then show ?case by simp
next
  case (Cons kv kvs)
  obtain k1 v1 where kv: "kv = (k1, v1)" by (cases kv)
  from Cons.prems(1) have d1: "\<forall>k' \<in> set (map fst kvs). \<not> key_eq cmp k1 k'"
    and d2: "distinct_keys cmp (map fst kvs)" by (simp_all add: kv)
  show ?case
  proof (cases "(k, v) \<in> set kvs")
    case True
    from Cons.IH[OF d2 True] show ?thesis by (simp add: kv)
  next
    case False
    then have e: "k = k1" "v = v1" using Cons.prems(2) by (simp_all add: kv)
    have "\<forall>(k', v') \<in> set kvs. \<not> key_eq cmp k' k1"
      using d1 hash_okD(3)[OF ok] by fastforce
    then have "last_value cmp valuesF kvs k1 d' = d'" for d'
      by (rule last_value_no_match)
    then show ?thesis using e hash_okD(2)[OF ok] by (simp add: kv)
  qed
qed

lemma last_value_nonzero:
  "valid_adds valuesF kvs \<Longrightarrow>
     last_value cmp valuesF kvs k d \<noteq> 0 \<longleftrightarrow> (\<exists>(k', v') \<in> set kvs. key_eq cmp k' k) \<or> d \<noteq> 0"
proof (induction kvs arbitrary: d)
  case Nil
  then show ?case by simp
next
  case (Cons kv kvs)
  obtain k1 v1 where kv: "kv = (k1, v1)" by (cases kv)
  have va: "valid_adds valuesF kvs" and nz: "valuesF \<longrightarrow> v1 \<noteq> 0"
    using Cons.prems by (auto simp: valid_adds_def kv)
  show ?case using Cons.IH[OF va] nz by (auto simp: kv)
qed

lemma Add_all_count:
  "hash_ok hashf cmp \<Longrightarrow> table_inv hashf cmp valuesF m \<Longrightarrow> valid_adds valuesF kvs \<Longrightarrow>
   elements m + int (length kvs) \<le> 2 ^ 28 \<Longrightarrow> distinct_keys cmp (map fst kvs) \<Longrightarrow>
   (\<forall>(k, v) \<in> set kvs. table_get cmp m k = 0) \<Longrightarrow>
   \<exists>m'. generalmapAdd_all m kvs hashf cmp valuesF = Some m' \<and>
        elements m' = elements m + int (length kvs)"
proof (induction kvs arbitrary: m)
  case Nil
  then show ?case by simp
next
  case (Cons kv kvs)
  obtain key "value" where kv: "kv = (key, value)" by (cases kv)
  have nz: "key \<noteq> 0" "valuesF \<longrightarrow> value \<noteq> 0" and va: "valid_adds valuesF kvs"
    using Cons.prems(3) by (auto simp: valid_adds_def kv)
  have small: "elements m < 2 ^ 28" using Cons.prems(4) by simp
  from Cons.prems(5) have d1: "\<forall>k' \<in> set (map fst kvs). \<not> key_eq cmp key k'"
    and d2: "distinct_keys cmp (map fst kvs)" by (simp_all add: kv)
  have g0: "table_get cmp m key = 0" using Cons.prems(6) by (simp add: kv)
  from Add_Merge_spec(1)[OF Cons.prems(1,2) small nz] obtain p m1 where
    a: "generalmapAdd m key value hashf cmp valuesF = Some (p, m1)"
    and inv1: "table_inv hashf cmp valuesF m1"
    and p: "p \<longleftrightarrow> table_get cmp m key \<noteq> 0"
    and el1: "elements m1 = elements m + (if p then 0 else 1)"
    and g1: "\<forall>k. table_get cmp m1 k =
               (if key_eq cmp key k then (if valuesF then value else 1) else table_get cmp m k)"
    unfolding add_post_def by blast
  have el1': "elements m1 = elements m + 1" using el1 p g0 by simp
  have b1: "elements m1 + int (length kvs) \<le> 2 ^ 28" using Cons.prems(4) el1' by simp
  have z1: "\<forall>(k, v) \<in> set kvs. table_get cmp m1 k = 0"
    using g1 d1 Cons.prems(6) by (fastforce simp: kv)
  from Cons.IH[OF Cons.prems(1) inv1 va b1 d2 z1] obtain m' where
    "generalmapAdd_all m1 kvs hashf cmp valuesF = Some m'"
    "elements m' = elements m1 + int (length kvs)" by blast
  then show ?case using a el1' by (simp add: kv)
qed

lemma Add_all_from_Init:
  assumes ok: "hash_ok hashf cmp" and h: "1 \<le> sizeHint" "sizeHint \<le> 2 ^ 30"
    and va: "valid_adds valuesF kvs" and len: "int (length kvs) \<le> 2 ^ 28"
  shows "\<exists>m. generalmapAdd_all (generalmapInit sizeHint libc_calloc (cmp \<noteq> None)) kvs hashf cmp valuesF
            = Some m \<and>
          table_inv hashf cmp valuesF m \<and>
          elements m \<le> int (length kvs) \<and>
          (distinct_keys cmp (map fst kvs) \<longrightarrow> elements m = int (length kvs)) \<and>
          (\<forall>k. table_get cmp m k = last_value cmp valuesF kvs k 0)"
proof -
  let ?m0 = "generalmapInit sizeHint libc_calloc (cmp \<noteq> None)"
  from generalmapInit_hint[OF h, of libc_calloc "cmp \<noteq> None"] obtain j where
    j: "j \<le> 30" "?m0 = generalmapInit (2 ^ j) libc_calloc (cmp \<noteq> None)" by blast
  have inv0: "table_inv hashf cmp valuesF ?m0" and g0: "\<And>k. table_get cmp ?m0 k = 0"
    and e0: "elements ?m0 = 0"
    using fresh_table_inv(1)[OF j(1), of hashf cmp valuesF] fresh_table_inv(2)[OF j(1), of cmp]
      generalmapInit_fields(2)[OF j(1)]
    unfolding j(2) by simp_all
  have b: "elements ?m0 + int (length kvs) \<le> 2 ^ 28" using len e0 by simp
  from Add_all_spec[OF ok inv0 va b] obtain m where
    r: "generalmapAdd_all ?m0 kvs hashf cmp valuesF = Some m"
    and inv: "table_inv hashf cmp valuesF m"
    and el: "elements m \<le> elements ?m0 + int (length kvs)"
    and g: "\<forall>k. table_get cmp m k = last_value cmp valuesF kvs k (table_get cmp ?m0 k)"
    by blast
  have "elements m = int (length kvs)" if "distinct_keys cmp (map fst kvs)"
    using Add_all_count[OF ok inv0 va b that] g0 r e0 by auto
  then show ?thesis using r inv el g g0 e0 by simp
qed

section \<open>The load factor\<close>

text \<open>
  The bound on \<open>elements\<close> does not depend on which keys and values are added: it needs
  only that the hash function returns an index of the table. \<open>counts_ok\<close> says that the
  arrays have \<open>size\<close> entries, that \<open>size\<close> is a power of two up to \<open>2^30\<close>, and that
  \<open>elements\<close> is at least the number of slots holding a value and at least the number of
  slots holding a key that is not zero (the slots \<^verbatim>\<open>generalmapMerge\<close> adds again).
  \<open>key_rest src index\<close> are the slots from \<open>index\<close> on that \<^verbatim>\<open>generalmapMerge\<close> has still to add.
\<close>

definition hash_in_range :: "generalmapHash \<Rightarrow> bool" where
  "hash_in_range hashf \<longleftrightarrow>
     (\<forall>key s. 1 \<le> s \<and> s \<le> 2 ^ 30 \<longrightarrow> 0 \<le> int32 (hashf key s) \<and> int32 (hashf key s) < s)"

definition keyed :: "generalmap \<Rightarrow> nat \<Rightarrow> bool" where
  "keyed m i \<longleftrightarrow> i < nat (size' m) \<and> key_at m i \<noteq> 0"

definition counts_ok :: "generalmapCmp option \<Rightarrow> generalmap \<Rightarrow> bool" where
  "counts_ok cmp m \<longleftrightarrow>
     arrays_ok cmp m \<and>
     (\<exists>j\<le>30. size' m = 2 ^ j) \<and>
     int (card {i. occupied m i}) \<le> elements m \<and>
     int (card {i. keyed m i}) \<le> elements m"

definition load_inv :: "generalmapCmp option \<Rightarrow> generalmap \<Rightarrow> bool" where
  "load_inv cmp m \<longleftrightarrow> counts_ok cmp m \<and> 2 * elements m \<le> size' m"

definition key_rest :: "generalmap \<Rightarrow> int \<Rightarrow> nat set" where
  "key_rest src index = {i. keyed src i \<and> nat index \<le> i}"

definition load_post :: "generalmapCmp option \<Rightarrow> generalmap \<Rightarrow> (bool \<times> generalmap) option \<Rightarrow> bool" where
  "load_post cmp m r \<longleftrightarrow>
     (\<exists>p m'. r = Some (p, m') \<and> load_inv cmp m' \<and>
        size' m' = (if size' m \<le> 2 * elements m + 1 then 2 * size' m else size' m) \<and>
        elements m' \<le> elements m + 1)"

definition merge_load_post ::
  "generalmapCmp option \<Rightarrow> generalmap \<Rightarrow> generalmap \<Rightarrow> int \<Rightarrow> generalmap option \<Rightarrow> bool" where
  "merge_load_post cmp dest src index r \<longleftrightarrow>
     (\<exists>dest'. r = Some dest' \<and> load_inv cmp dest' \<and>
        elements dest' \<le> elements dest + int (card (key_rest src index)) \<and>
        (2 * (elements dest + int (card (key_rest src index))) \<le> size' dest \<longrightarrow>
           size' dest' = size' dest))"

lemma hash_ok_in_range: "hash_ok hashf cmp \<Longrightarrow> hash_in_range hashf"
  unfolding hash_ok_def hash_in_range_def by blast

text \<open>
  Both hash functions of the library return an index of the table. A string key is a
  pointer; \<open>str\<close> gives the string it points to.
\<close>

lemma hash_in_range_hashint: "hash_in_range hashint"
  using hash_ok_hashint by (rule hash_ok_in_range)

lemma hashstr_range:
  assumes "1 \<le> s" "s \<le> 2 ^ 30"
  shows "0 \<le> int32 (hashstr key s) \<and> int32 (hashstr key s) < s"
proof -
  have m: "int32 (s - 1) = s - 1" using assms by (intro int32_id) simp_all
  obtain h where h: "hashstr key s = h AND (s - 1)"
    by (simp add: hashstr_def Let_def m)
  define r where "r = h AND (s - 1)"
  have a: "0 \<le> r" unfolding r_def using assms by simp
  have b: "r \<le> s - 1" unfolding r_def using assms by (intro AND_upper2) simp
  have "int32 r = r" using a b assms by (intro int32_id) simp_all
  then show ?thesis using a b h by (simp add: r_def[symmetric])
qed

lemma hash_in_range_hashstr: "hash_in_range (\<lambda>key. hashstr (str key))"
  unfolding hash_in_range_def using hashstr_range by blast

lemma counts_ok_size:
  assumes "counts_ok cmp m"
  shows "1 \<le> size' m" "size' m \<le> 2 ^ 30"
proof -
  from assms obtain j where j: "j \<le> 30" "size' m = 2 ^ j" unfolding counts_ok_def by blast
  show "1 \<le> size' m" "size' m \<le> 2 ^ 30" using exp_bounds[OF j(1)] j(2) by simp_all
qed

lemma occupied_finite [simp]: "finite {i. occupied m i}"
  by (rule finite_subset[of _ "{0..<nat (size' m)}"]) (auto simp: occupied_def)

lemma keyed_finite [simp]: "finite {i. keyed m i}"
  by (rule finite_subset[of _ "{0..<nat (size' m)}"]) (auto simp: keyed_def)

lemma card_grow:
  assumes "finite A" "B \<subseteq> insert x A"
  shows "int (card B) \<le> int (card A) + 1"
proof -
  have "card B \<le> card (insert x A)" using assms by (intro card_mono) simp_all
  also have "\<dots> \<le> Suc (card A)" using assms(1) by (simp add: card_insert_le_m1 card_insert_if)
  finally show ?thesis by simp
qed

lemma card_shrink:
  assumes "finite A" "B \<subseteq> A"
  shows "int (card B) \<le> int (card A)"
  using assms by (simp add: card_mono)

lemma Find_stop:
  assumes hr: "hash_in_range hashf" and co: "counts_ok cmp m" and room: "elements m < size' m"
  shows "\<exists>idx. generalmapFind m key (int32 (hashf key (size' m))) cmp = Some (int idx) \<and>
           idx < nat (size' m) \<and> stops m cmp key (int32 (hashf key (size' m))) idx"
proof -
  let ?h = "int32 (hashf key (size' m))"
  let ?n = "nat (size' m)"
  let ?S = "probe_seq (nat ?h) ?n"
  let ?P = "stops m cmp key ?h"
  have h: "0 \<le> ?h" "?h < size' m"
    using hr counts_ok_size[OF co] unfolding hash_in_range_def by simp_all
  have hl: "nat ?h \<le> ?n" using h by simp
  have ao: "arrays_ok cmp m" using co by (simp add: counts_ok_def)
  have F: "generalmapFind m key ?h cmp =
      Some (case List.find ?P ?S of Some j \<Rightarrow> int j | None \<Rightarrow> ?h)"
    using Find_ok[OF ao h, of key] .
  have "int (card {i. occupied m i}) \<le> elements m" using co by (simp add: counts_ok_def)
  then have c: "card {i. occupied m i} < ?n" using room by linarith
  have "\<exists>u < ?n. \<not> occupied m u"
  proof (rule ccontr)
    assume "\<not> (\<exists>u < ?n. \<not> occupied m u)"
    then have "{i. occupied m i} = {0..<?n}" by (auto simp: occupied_def)
    with c show False by simp
  qed
  then obtain u where u: "u < ?n" "\<not> occupied m u" by blast
  then have "?P u" by (simp add: stops_def occupied_def)
  moreover have "u \<in> set ?S" using u hl by simp
  ultimately have "List.find ?P ?S \<noteq> None" by (auto simp: find_None_iff)
  then obtain idx where idx: "List.find ?P ?S = Some idx" by blast
  from find_prefix[OF idx] have p: "idx \<in> set ?S" "?P idx" by simp_all
  have il: "idx < ?n" using p(1) hl by simp
  show ?thesis using F idx il p(2) by (intro exI[of _ idx]) simp
qed

lemma Add_slot_counts:
  assumes hr: "hash_in_range hashf" and co: "counts_ok cmp m" and room: "elements m < size' m"
  shows "\<exists>p m'. generalmapAdd_slot m key value hashf cmp valuesF = Some (p, m') \<and>
           counts_ok cmp m' \<and> size' m' = size' m \<and> elements m' \<le> elements m + 1"
proof -
  let ?h = "int32 (hashf key (size' m))"
  let ?n = "nat (size' m)"
  let ?v = "if valuesF then value else 1"
  from Find_stop[OF hr co room, of key] obtain idx where
    F: "generalmapFind m key ?h cmp = Some (int idx)" and il: "idx < ?n"
    and st: "stops m cmp key ?h idx" by blast
  have ao: "arrays_ok cmp m" using co by (simp add: counts_ok_def)
  then obtain ks0 vs0 where k0: "keysInt m = Some ks0" "length ks0 = ?n"
    and v0: "values' m = Some vs0" "length vs0 = ?n"
    unfolding arrays_ok_def by blast
  have ir: "0 \<le> int idx" "int idx < size' m" using il by simp_all
  have il2: "idx < length ks0" "idx < length vs0" using il k0 v0 by simp_all
  have rv: "rd (values' m) (int idx) = Some (vs0 ! idx)" using v0 il2 by (simp add: rd_nat)
  have sz: "size' m \<le> 2 ^ 30" using counts_ok_size[OF co] by simp
  have "int (card {i. occupied m i}) \<le> elements m" using co by (simp add: counts_ok_def)
  then have e0: "0 \<le> elements m" by linarith
  have wv: "wr (values' m) (int idx) ?v = Some (Some (vs0[idx := ?v]))"
    using v0 il2 by (simp add: wr_nat)
  from co have c1: "int (card {i. occupied m i}) \<le> elements m"
    and c2: "int (card {i. keyed m i}) \<le> elements m" and pw: "\<exists>j\<le>30. size' m = 2 ^ j"
    by (simp_all add: counts_ok_def)
  show ?thesis
  proof (cases "vs0 ! idx = 0")
    case True
    have e1: "int32 (elements m + 1) = elements m + 1"
    proof (rule int32_id)
      show "- (2 ^ 31) \<le> elements m + 1" using e0 by simp
      show "elements m + 1 < 2 ^ 31" using room sz by simp
    qed
    have wk: "wr (keysInt m) (int idx) key = Some (Some (ks0[idx := key]))"
      using k0 il2 by (simp add: wr_nat)
    define m' where "m' = (if cmp \<noteq> None
        then m\<lparr>keysInt := Some (ks0[idx := key]), elements := elements m + 1,
              hashes := Some ((the (hashes m))[idx := ?h]), values' := Some (vs0[idx := ?v])\<rparr>
        else m\<lparr>keysInt := Some (ks0[idx := key]), elements := elements m + 1,
              values' := Some (vs0[idx := ?v])\<rparr>)"
    have run: "generalmapAdd_slot m key value hashf cmp valuesF = Some (False, m')"
    proof (cases "cmp = None")
      case T2: True
      show ?thesis using T2 F rv True wk wv
        by (simp add: generalmapAdd_slot_def Let_def e1 m'_def)
    next
      case F2: False
      with ao obtain hs0 where h0: "hashes m = Some hs0" "length hs0 = ?n"
        unfolding arrays_ok_def by blast
      have wh: "wr (hashes m) (int idx) ?h = Some (Some ((the (hashes m))[idx := ?h]))"
        using h0 il by (simp add: wr_nat)
      show ?thesis using F2 F rv True wk wv wh
        by (simp add: generalmapAdd_slot_def Let_def e1 m'_def)
    qed
    have f: "size' m' = size' m" "elements m' = elements m + 1"
      "keysInt m' = Some (ks0[idx := key])" "values' m' = Some (vs0[idx := ?v])"
      by (simp_all add: m'_def)
    have ao': "arrays_ok cmp m'"
      using ao k0 v0 unfolding arrays_ok_def by (auto simp: m'_def)
    have s1: "{i. occupied m' i} \<subseteq> insert idx {i. occupied m i}"
      using v0 by (auto simp: occupied_def f nth_list_update)
    have s2: "{i. keyed m' i} \<subseteq> insert idx {i. keyed m i}"
      using k0 by (auto simp: keyed_def key_at_def f nth_list_update)
    have "counts_ok cmp m'"
      unfolding counts_ok_def using ao' pw card_grow[OF occupied_finite s1] card_grow[OF keyed_finite s2] c1 c2
      by (simp add: f)
    then show ?thesis using run f by (intro exI[of _ False] exI[of _ m']) simp
  next
    case False
    then have "is_match m cmp key ?h idx" using st v0 by (simp add: stops_def)
    then have im: "generalmapIsMatch m (int idx) key ?h cmp = Some True"
      using IsMatch_ok[OF ao ir, of key ?h] by simp
    define m' where "m' = m\<lparr>values' := Some (vs0[idx := ?v])\<rparr>"
    have run: "generalmapAdd_slot m key value hashf cmp valuesF = Some (True, m')"
      using F rv False im wv by (simp add: generalmapAdd_slot_def Let_def m'_def)
    have f: "size' m' = size' m" "elements m' = elements m"
      "keysInt m' = keysInt m" "values' m' = Some (vs0[idx := ?v])"
      by (simp_all add: m'_def)
    have ao': "arrays_ok cmp m'"
      using ao k0 v0 unfolding arrays_ok_def by (auto simp: m'_def)
    have s1: "{i. occupied m' i} \<subseteq> {i. occupied m i}"
    proof (rule subsetI)
      fix x assume "x \<in> {i. occupied m' i}"
      then have a: "x < ?n" "vs0[idx := ?v] ! x \<noteq> 0" by (simp_all add: occupied_def f)
      show "x \<in> {i. occupied m i}"
      proof (cases "x = idx")
        case True
        then show ?thesis using False v0 a(1) by (simp add: occupied_def)
      next
        case F3: False
        then show ?thesis using a v0 by (simp add: occupied_def)
      qed
    qed
    have s2: "{i. keyed m' i} = {i. keyed m i}"
      by (simp add: keyed_def key_at_def f)
    have "counts_ok cmp m'"
      unfolding counts_ok_def using ao' pw card_shrink[OF occupied_finite s1] c1 c2
      by (simp add: f s2)
    then show ?thesis using run f by (intro exI[of _ True] exI[of _ m']) simp
  qed
qed

lemma key_rest_finite [simp]: "finite (key_rest src index)"
  by (rule finite_subset[of _ "{0..<nat (size' src)}"]) (auto simp: key_rest_def keyed_def)

lemma key_rest_empty: "size' src \<le> index \<Longrightarrow> key_rest src index = {}"
  by (auto simp: key_rest_def keyed_def)

lemma key_rest_skip:
  assumes "0 \<le> index" "\<not> keyed src (nat index)"
  shows "key_rest src index = key_rest src (index + 1)"
proof -
  have "nat (index + 1) = Suc (nat index)" using assms(1) by simp
  then show ?thesis using assms(2) unfolding key_rest_def
    by (auto simp: Suc_le_eq le_less)
qed

lemma key_rest_step:
  assumes "0 \<le> index" "keyed src (nat index)"
  shows "card (key_rest src index) = Suc (card (key_rest src (index + 1)))"
proof -
  have s: "nat (index + 1) = Suc (nat index)" using assms(1) by simp
  have "key_rest src index = insert (nat index) (key_rest src (index + 1))"
    using assms(2) unfolding key_rest_def s by (auto simp: Suc_le_eq le_less)
  moreover have "nat index \<notin> key_rest src (index + 1)" unfolding key_rest_def s by simp
  ultimately show ?thesis by simp
qed

lemma key_rest_zero: "key_rest src 0 = {i. keyed src i}"
  by (simp add: key_rest_def)

lemma fresh_load_inv:
  assumes "j \<le> 30"
  shows "load_inv cmp (generalmapInit (2 ^ j) libc_calloc (cmp \<noteq> None))"
proof -
  define m where "m = generalmapInit (2 ^ j) libc_calloc (cmp \<noteq> None)"
  note f = generalmapInit_fields[OF assms, of "cmp \<noteq> None", folded m_def]
  have n: "nat (size' m) = 2 ^ j" by (simp add: f(1) nat_power_eq)
  have no: "{i. occupied m i} = {}" by (auto simp: occupied_def f(4) n)
  have nk: "{i. keyed m i} = {}" by (auto simp: keyed_def key_at_def f(3) n)
  have ao: "arrays_ok cmp m" unfolding arrays_ok_def by (simp add: f n)
  have "load_inv cmp m"
    unfolding load_inv_def counts_ok_def using ao assms by (auto simp: no nk f)
  then show ?thesis by (simp add: m_def)
qed

lemma Add_load_no_growth:
  assumes hr: "hash_in_range hashf" and inv: "load_inv cmp m"
    and ng: "2 * elements m + 1 < size' m"
  shows "load_post cmp m (generalmapAdd_slot m key value hashf cmp valuesF)"
proof -
  from inv have co: "counts_ok cmp m" by (simp add: load_inv_def)
  have "int (card {i. occupied m i}) \<le> elements m" using co by (simp add: counts_ok_def)
  then have e0: "0 \<le> elements m" by linarith
  have room: "elements m < size' m" using ng e0 by simp
  from Add_slot_counts[OF hr co room, of key "value" valuesF] obtain p m' where
    r: "generalmapAdd_slot m key value hashf cmp valuesF = Some (p, m')"
    and co': "counts_ok cmp m'" and sz: "size' m' = size' m"
    and el: "elements m' \<le> elements m + 1" by blast
  have "2 * elements m' \<le> size' m'" using el sz ng by simp
  then show ?thesis unfolding load_post_def using r co' sz el ng
    by (intro exI[of _ p] exI[of _ m']) (simp add: load_inv_def)
qed

lemma Add_Merge_load:
  shows "hash_in_range hashf \<Longrightarrow> load_inv cmp m \<Longrightarrow> elements m < 2 ^ 28 \<Longrightarrow>
       load_post cmp m (generalmapAdd m key value hashf cmp valuesF)"
    and "hash_in_range hashf \<Longrightarrow> load_inv cmp dest \<Longrightarrow> arrays_ok cmp src \<Longrightarrow> 0 \<le> index \<Longrightarrow>
       elements dest + int (card (key_rest src index)) \<le> 2 ^ 28 \<Longrightarrow>
       merge_load_post cmp dest src index
         (generalmapMerge_loop dest src hashf cmp dup valuesF index)"
proof (induction m key "value" hashf cmp valuesF and dest src hashf cmp dup valuesF index
    rule: generalmapAdd_generalmapMerge_loop.induct)
  case (1 m key "value" hashf cmp valuesF)
  note hr = \<open>hash_in_range hashf\<close> and inv = \<open>load_inv cmp m\<close> and small = \<open>elements m < 2 ^ 28\<close>
  from inv have co: "counts_ok cmp m" and ld: "2 * elements m \<le> size' m"
    by (simp_all add: load_inv_def)
  have ck: "int (card {i. keyed m i}) \<le> elements m" using co by (simp add: counts_ok_def)
  then have e0: "0 \<le> elements m" by linarith
  have ga: "int32 (int32 (elements m * 2) + 1) = 2 * elements m + 1"
    using growth_arith[OF e0 small] .
  show ?case
  proof (cases "size' m \<le> 2 * elements m + 1")
    case False
    then have "generalmapAdd m key value hashf cmp valuesF =
        generalmapAdd_slot m key value hashf cmp valuesF"
      by (subst generalmapAdd.simps) (simp add: ga)
    moreover have "2 * elements m + 1 < size' m" using False by simp
    ultimately show ?thesis using Add_load_no_growth[OF hr inv] by simp
  next
    case True
    from co obtain j where j: "j \<le> 30" "size' m = 2 ^ j" unfolding counts_ok_def by blast
    have "(2::int) ^ j < 2 ^ 30" using True small j(2) by simp
    then have "j < 30" by (rule power_less_imp_less_exp[rotated]) simp
    then have sj: "Suc j \<le> 30" by simp
    have dbl: "size' m * 2 = 2 ^ Suc j" using j(2) by simp
    have i2: "int32 (size' m * 2) = 2 ^ Suc j" unfolding dbl using sj by (rule int32_exp)
    define new0 where "new0 = generalmapInit (2 ^ Suc j) libc_calloc (cmp \<noteq> None)"
    note fr = fresh_load_inv[OF sj, of cmp, folded new0_def]
    note ff = generalmapInit_fields[OF sj, of "cmp \<noteq> None", folded new0_def]
    have cond: "size' m \<le> int32 (int32 (elements m * 2) + 1)" using True ga by simp
    have x: "new0 = generalmapInit (int32 (size' m * 2)) libc_calloc (cmp \<noteq> None)"
      by (simp add: new0_def i2)
    have ao: "arrays_ok cmp m" using co by (simp add: counts_ok_def)
    have bound: "elements new0 + int (card (key_rest m 0)) \<le> 2 ^ 28"
      using ck small by (simp add: ff(2) key_rest_zero)
    have "merge_load_post cmp new0 m 0 (generalmapMerge_loop new0 m hashf cmp None valuesF 0)"
      using "1.IH"[OF cond x hr fr ao _ bound] by simp
    then obtain new1 where
      mr: "generalmapMerge_loop new0 m hashf cmp None valuesF 0 = Some new1"
      and inv1: "load_inv cmp new1"
      and el1: "elements new1 \<le> elements new0 + int (card (key_rest m 0))"
      and sz1: "2 * (elements new0 + int (card (key_rest m 0))) \<le> size' new0 \<longrightarrow>
           size' new1 = size' new0"
      unfolding merge_load_post_def by blast
    have el1': "elements new1 \<le> elements m" using el1 ck by (simp add: ff(2) key_rest_zero)
    have sz1': "size' new1 = 2 * size' m"
    proof -
      have "2 * int (card (key_rest m 0)) \<le> size' m * 2"
        using ld ck e0 unfolding key_rest_zero by linarith
      then have "2 * (elements new0 + int (card (key_rest m 0))) \<le> size' new0"
        unfolding ff(1) ff(2) dbl by (simp only: add_0)
      then show ?thesis using sz1 ff(1) dbl by simp
    qed
    have mr': "generalmapMerge_loop (generalmapInit (int32 (size' m * 2)) libc_calloc (cmp \<noteq> None))
        m hashf cmp None valuesF 0 = Some new1"
      using mr unfolding x .
    have run: "generalmapAdd m key value hashf cmp valuesF =
        generalmapAdd_slot new1 key value hashf cmp valuesF"
      using cond mr' by (subst generalmapAdd.simps) (simp split: prod.splits)
    have s1: "1 \<le> size' m" using counts_ok_size[OF co] by simp
    have "2 * elements m + 1 < 2 * size' m" using ld s1 by presburger
    then have ng1: "2 * elements new1 + 1 < size' new1" using el1' sz1' by simp
    from Add_load_no_growth[OF hr inv1 ng1, of key "value" valuesF] obtain p m' where
      r: "generalmapAdd_slot new1 key value hashf cmp valuesF = Some (p, m')"
      and inv': "load_inv cmp m'"
      and sz': "size' m' = (if size' new1 \<le> 2 * elements new1 + 1 then 2 * size' new1 else size' new1)"
      and el': "elements m' \<le> elements new1 + 1"
      unfolding load_post_def by blast
    have "size' m' = 2 * size' m" using sz' ng1 sz1' by simp
    moreover have "elements m' \<le> elements m + 1" using el' el1' by simp
    ultimately show ?thesis
      unfolding load_post_def using run r inv' True
      by (intro exI[of _ p] exI[of _ m']) simp
  qed
next
  case (2 dest src hashf cmp dup valuesF index)
  note hr = \<open>hash_in_range hashf\<close> and inv = \<open>load_inv cmp dest\<close>
    and aos = \<open>arrays_ok cmp src\<close> and i0 = \<open>0 \<le> index\<close>
    and bound = \<open>elements dest + int (card (key_rest src index)) \<le> 2 ^ 28\<close>
  show ?case
  proof (cases "index < size' src")
    case False
    then have "generalmapMerge_loop dest src hashf cmp dup valuesF index = Some dest"
      by (subst generalmapMerge_loop.simps) simp
    moreover have "key_rest src index = {}" using False by (intro key_rest_empty) simp
    ultimately show ?thesis unfolding merge_load_post_def using inv by simp
  next
    case True
    let ?i = "nat index"
    have il: "?i < nat (size' src)" using True i0 by simp
    have rk: "rd (keysInt src) index = Some (key_at src ?i)"
      using rd_keys_ok[OF aos i0 True] by (simp add: key_at_def)
    show ?thesis
    proof (cases "key_at src ?i = 0")
      case kz: True
      then have no: "\<not> keyed src ?i" by (simp add: keyed_def)
      have rs: "key_rest src index = key_rest src (index + 1)" using key_rest_skip[OF i0 no] .
      have "merge_load_post cmp dest src (index + 1)
          (generalmapMerge_loop dest src hashf cmp dup valuesF (index + 1))"
        using "2.IH"(1)[OF True rk kz hr inv aos] i0 bound rs by simp
      moreover have "generalmapMerge_loop dest src hashf cmp dup valuesF index =
          generalmapMerge_loop dest src hashf cmp dup valuesF (index + 1)"
        using True rk kz by (subst generalmapMerge_loop.simps) simp
      ultimately show ?thesis unfolding merge_load_post_def rs by simp
    next
      case kn: False
      then have oc: "keyed src ?i" using il by (simp add: keyed_def)
      note c1 = key_rest_step[OF i0 oc]
      define key' where "key' = (case dup of None \<Rightarrow> key_at src ?i | Some d \<Rightarrow> d (key_at src ?i))"
      define aa where "aa = (if valuesF then the (values' src) ! ?i else 0)"
      have rv: "(if valuesF then rd (values' src) index else Some 0) = Some aa"
        using rd_values_ok[OF aos i0 True] by (simp add: aa_def)
      have small: "elements dest < 2 ^ 28" using bound c1 by simp
      have "load_post cmp dest (generalmapAdd dest key' aa hashf cmp valuesF)"
        using "2.IH"(2)[OF True rk kn key'_def rv hr inv small] .
      then obtain p d1 where
        ar: "generalmapAdd dest key' aa hashf cmp valuesF = Some (p, d1)"
        and inv1: "load_inv cmp d1"
        and sz1: "size' d1 = (if size' dest \<le> 2 * elements dest + 1 then 2 * size' dest else size' dest)"
        and el1: "elements d1 \<le> elements dest + 1"
        unfolding load_post_def by blast
      have bound1: "elements d1 + int (card (key_rest src (index + 1))) \<le> 2 ^ 28"
        using bound c1 el1 by simp
      have i1: "0 \<le> index + 1" using i0 by simp
      have "merge_load_post cmp d1 src (index + 1)
          (generalmapMerge_loop d1 src hashf cmp dup valuesF (index + 1))"
        using "2.IH"(3)[OF True rk kn key'_def rv ar refl hr inv1 aos i1 bound1] .
      then obtain dest' where
        mr: "generalmapMerge_loop d1 src hashf cmp dup valuesF (index + 1) = Some dest'"
        and inv': "load_inv cmp dest'"
        and el': "elements dest' \<le> elements d1 + int (card (key_rest src (index + 1)))"
        and sz': "2 * (elements d1 + int (card (key_rest src (index + 1)))) \<le> size' d1 \<longrightarrow>
           size' dest' = size' d1"
        unfolding merge_load_post_def by blast
      have run: "generalmapMerge_loop dest src hashf cmp dup valuesF index = Some dest'"
        using True rk kn rv ar mr
        by (subst generalmapMerge_loop.simps) (simp add: key'_def[symmetric])
      have E: "elements dest' \<le> elements dest + int (card (key_rest src index))"
        using el' el1 c1 by simp
      have S: "size' dest' = size' dest"
        if "2 * (elements dest + int (card (key_rest src index))) \<le> size' dest"
      proof -
        have "size' d1 = size' dest" using sz1 that c1 by simp
        moreover have "2 * (elements d1 + int (card (key_rest src (index + 1)))) \<le> size' d1"
          using that c1 el1 calculation by simp
        ultimately show ?thesis using sz' by simp
      qed
      show ?thesis unfolding merge_load_post_def using run inv' E S by simp
    qed
  qed
qed

lemma Add_all_load:
  "hash_in_range hashf \<Longrightarrow> load_inv cmp m \<Longrightarrow> elements m + int (length kvs) \<le> 2 ^ 28 \<Longrightarrow>
   \<exists>m'. generalmapAdd_all m kvs hashf cmp valuesF = Some m' \<and> load_inv cmp m' \<and>
        elements m' \<le> elements m + int (length kvs)"
proof (induction kvs arbitrary: m)
  case Nil
  then show ?case by simp
next
  case (Cons kv kvs)
  obtain key "value" where kv: "kv = (key, value)" by (cases kv)
  have small: "elements m < 2 ^ 28" using Cons.prems(3) by simp
  from Add_Merge_load(1)[OF Cons.prems(1,2) small, of key "value" valuesF] obtain p m1 where
    a: "generalmapAdd m key value hashf cmp valuesF = Some (p, m1)"
    and inv1: "load_inv cmp m1" and el1: "elements m1 \<le> elements m + 1"
    unfolding load_post_def by blast
  have b1: "elements m1 + int (length kvs) \<le> 2 ^ 28" using Cons.prems(3) el1 by simp
  from Cons.IH[OF Cons.prems(1) inv1 b1] obtain m' where
    "generalmapAdd_all m1 kvs hashf cmp valuesF = Some m'" "load_inv cmp m'"
    "elements m' \<le> elements m1 + int (length kvs)" by blast
  then show ?case using a el1 by (simp add: kv)
qed

lemma Add_all_load_from_Init:
  assumes hr: "hash_in_range hashf" and h: "1 \<le> sizeHint" "sizeHint \<le> 2 ^ 30"
    and len: "int (length kvs) \<le> 2 ^ 28"
  shows "\<exists>m. generalmapAdd_all (generalmapInit sizeHint libc_calloc (cmp \<noteq> None)) kvs hashf cmp valuesF
            = Some m \<and> load_inv cmp m \<and> elements m \<le> int (length kvs)"
proof -
  let ?m0 = "generalmapInit sizeHint libc_calloc (cmp \<noteq> None)"
  from generalmapInit_hint[OF h, of libc_calloc "cmp \<noteq> None"] obtain j where
    j: "j \<le> 30" "?m0 = generalmapInit (2 ^ j) libc_calloc (cmp \<noteq> None)" by blast
  have inv0: "load_inv cmp ?m0" and e0: "elements ?m0 = 0"
    using fresh_load_inv[OF j(1), of cmp] generalmapInit_fields(2)[OF j(1)]
    unfolding j(2) by simp_all
  have b: "elements ?m0 + int (length kvs) \<le> 2 ^ 28" using len e0 by simp
  from Add_all_load[OF hr inv0 b, of valuesF] show ?thesis using e0 by simp
qed

section \<open>The claims on Add\<close>

text \<open>
  Claim C1, for keys that are not zero and values that are not null. A table is created by
  \<^verbatim>\<open>generalmapInit\<close> with a size hint between \<open>1\<close> and \<open>2^30\<close>, and \<open>N\<close> keys that pairwise do
  not match are added, \<open>N\<close> at most \<open>2^28\<close>. Then every Add returns, \<open>elements\<close> is \<open>N\<close> at the
  end, and \<^verbatim>\<open>generalmapMap\<close> of every added key returns the value added with it (the
  sentinel \<open>1\<close> for a set).
\<close>

theorem add_sequence_count_and_lookup:
  assumes "hash_ok hashf cmp" and "1 \<le> sizeHint" and "sizeHint \<le> 2 ^ 30"
    and "valid_adds valuesF kvs" and "int (length kvs) \<le> 2 ^ 28"
    and "distinct_keys cmp (map fst kvs)"
  shows "\<exists>m. generalmapAdd_all (generalmapInit sizeHint libc_calloc (cmp \<noteq> None)) kvs hashf cmp
               valuesF = Some m \<and>
           elements m = int (length kvs) \<and>
           (\<forall>(key, value) \<in> set kvs.
               generalmapMap m key hashf cmp = Some (if valuesF then value else 1))"
proof -
  from Add_all_from_Init[OF assms(1-5)] assms(6) obtain m where
    r: "generalmapAdd_all (generalmapInit sizeHint libc_calloc (cmp \<noteq> None)) kvs hashf cmp valuesF
          = Some m"
    and inv: "table_inv hashf cmp valuesF m"
    and el: "elements m = int (length kvs)"
    and g: "\<forall>k. table_get cmp m k = last_value cmp valuesF kvs k 0"
    by blast
  have "generalmapMap m key hashf cmp = Some (if valuesF then value else 1)"
    if "(key, value) \<in> set kvs" for key "value"
    using Map_spec[OF assms(1) inv, of key] g
      last_value_distinct[OF assms(1) assms(6) that, of valuesF 0] by simp
  then show ?thesis using r el by auto
qed

theorem add_sequence_count_and_lookup_witness:
  "\<exists>m. generalmapAdd_all (generalmapInit 3 libc_calloc False) [(1, 10), (2, 20), (3, 30)]
          hashint None True = Some m \<and>
       elements m = 3 \<and>
       generalmapMap m 1 hashint None = Some 10 \<and>
       generalmapMap m 2 hashint None = Some 20 \<and>
       generalmapMap m 3 hashint None = Some 30"
  using add_sequence_count_and_lookup[OF hash_ok_hashint, of 3 True "[(1, 10), (2, 20), (3, 30)]"]
  by (simp add: valid_adds_def key_eq_def)

text \<open>
  Claim C1 as it is written fails for a null value: a slot whose value is null counts as
  empty. On an integer map of size 4 the keys 1 and 6 share the home slot 1. After
  \<open>Add(1, null)\<close>, \<open>Add(6, 7)\<close> takes the slot of key 1, and the growth in \<open>Add(2, 9)\<close> counts
  the slots again: three keys that differ were added and \<open>elements\<close> is 2.
\<close>

theorem add_sequence_null_value_count:
  "generalmapAdd_all (generalmapInit 4 libc_calloc False) [(1, 0), (6, 7), (2, 9)]
     hashint None True =
   Some \<lparr>size' = 8, elements = 2, keysInt = Some [0, 0, 0, 2, 0, 6, 0, 0], hashes = None,
          values' = Some [0, 0, 0, 9, 0, 7, 0, 0]\<rparr>"
  by code_simp

text \<open>A table reached from \<^verbatim>\<open>generalmapInit\<close> by such Adds is well formed.\<close>

lemma reached_table_inv:
  assumes ok: "hash_ok hashf cmp" and h: "1 \<le> sizeHint" "sizeHint \<le> 2 ^ 30"
    and va: "valid_adds valuesF kvs" and len: "int (length kvs) < 2 ^ 28"
    and r: "generalmapAdd_all (generalmapInit sizeHint libc_calloc (cmp \<noteq> None)) kvs hashf cmp
              valuesF = Some m"
  shows "table_inv hashf cmp valuesF m" "elements m < 2 ^ 28"
    "\<And>k. table_get cmp m k = last_value cmp valuesF kvs k 0"
proof -
  have len': "int (length kvs) \<le> 2 ^ 28" using len by simp
  from Add_all_from_Init[OF ok h va len'] r
  show "table_inv hashf cmp valuesF m" "elements m < 2 ^ 28"
    "\<And>k. table_get cmp m k = last_value cmp valuesF kvs k 0"
    using len by auto
qed

text \<open>
  Claim C2, with the bound that holds, for any keys and values. A table is created by
  \<^verbatim>\<open>generalmapInit\<close> (size hint between \<open>1\<close> and \<open>2^30\<close>) and fewer than \<open>2^28\<close> Adds follow.
  Then every Add returns and \<open>2 * elements \<le> size\<close> holds after it. One more Add returns
  too; it doubles the size, once, exactly when \<open>2 * elements + 1 \<ge> size\<close> at the call, so
  that \<open>2 * elements + 1 < size\<close> holds for the size the key is inserted into, with
  \<open>elements\<close> read before the insertion; after the Add \<open>2 * elements \<le> size\<close> holds again.
\<close>

theorem load_factor_after_add:
  assumes "hash_in_range hashf" and "1 \<le> sizeHint" and "sizeHint \<le> 2 ^ 30"
    and "int (length kvs) < 2 ^ 28"
  shows "\<exists>m present m'.
           generalmapAdd_all (generalmapInit sizeHint libc_calloc (cmp \<noteq> None)) kvs hashf cmp
             valuesF = Some m \<and>
           2 * elements m \<le> size' m \<and>
           generalmapAdd m key value hashf cmp valuesF = Some (present, m') \<and>
           size' m' = (if size' m \<le> 2 * elements m + 1 then 2 * size' m else size' m) \<and>
           2 * elements m + 1 < size' m' \<and>
           2 * elements m' \<le> size' m'"
proof -
  have len: "int (length kvs) \<le> 2 ^ 28" using assms(4) by simp
  from Add_all_load_from_Init[OF assms(1-3) len, of cmp valuesF] obtain m where
    r: "generalmapAdd_all (generalmapInit sizeHint libc_calloc (cmp \<noteq> None)) kvs hashf cmp valuesF
          = Some m"
    and inv: "load_inv cmp m" and el: "elements m \<le> int (length kvs)"
    by blast
  have small: "elements m < 2 ^ 28" using el assms(4) by simp
  from Add_Merge_load(1)[OF assms(1) inv small, of key "value" valuesF] obtain p m' where
    a: "generalmapAdd m key value hashf cmp valuesF = Some (p, m')"
    and inv': "load_inv cmp m'"
    and sz: "size' m' = (if size' m \<le> 2 * elements m + 1 then 2 * size' m else size' m)"
    unfolding load_post_def by blast
  have ld: "2 * elements m \<le> size' m" and ld': "2 * elements m' \<le> size' m'"
    using inv inv' by (simp_all add: load_inv_def)
  have "1 \<le> size' m" using inv counts_ok_size(1)[of cmp m] by (simp add: load_inv_def)
  then have "2 * elements m + 1 < 2 * size' m" using ld by presburger
  then have "2 * elements m + 1 < size' m'" using sz by (simp split: if_splits)
  then show ?thesis using r a sz ld ld' by blast
qed

theorem load_factor_after_add_witness:
  "generalmapAdd_all (generalmapInit 3 libc_calloc False) [(1, 10), (2, 20)] hashint None True =
     Some \<lparr>size' = 4, elements = 2, keysInt = Some [0, 1, 0, 2], hashes = None,
            values' = Some [0, 10, 0, 20]\<rparr> \<and>
   (\<exists>present m'.
      generalmapAdd \<lparr>size' = 4, elements = 2, keysInt = Some [0, 1, 0, 2], hashes = None,
          values' = Some [0, 10, 0, 20]\<rparr> 3 30 hashint None True = Some (present, m') \<and>
      size' m' = 8 \<and> 2 * elements m' \<le> size' m')"
proof -
  let ?m = "\<lparr>size' = 4, elements = 2, keysInt = Some [0, 1, 0, 2], hashes = None,
            values' = Some [0, 10, 0, 20]\<rparr>"
  have r: "generalmapAdd_all (generalmapInit 3 libc_calloc (None \<noteq> (None :: generalmapCmp option)))
      [(1, 10), (2, 20)] hashint None True = Some ?m"
    by code_simp
  from load_factor_after_add[OF hash_in_range_hashint, of 3 "[(1, 10), (2, 20)]" None True 3 30]
  obtain m p m' where
    h: "generalmapAdd_all (generalmapInit 3 libc_calloc (None \<noteq> (None :: generalmapCmp option)))
          [(1, 10), (2, 20)] hashint None True = Some m"
      "generalmapAdd m 3 30 hashint None True = Some (p, m')"
      "size' m' = (if size' m \<le> 2 * elements m + 1 then 2 * size' m else size' m)"
      "2 * elements m' \<le> size' m'"
    by auto
  have m: "m = ?m" using h(1) r by simp
  have "size' m' = 8" using h(3) unfolding m by simp
  then have "\<exists>present m'. generalmapAdd ?m 3 30 hashint None True = Some (present, m') \<and>
      size' m' = 8 \<and> 2 * elements m' \<le> size' m'"
    using h(2,4) unfolding m by blast
  moreover have "generalmapAdd_all (generalmapInit 3 libc_calloc False)
      [(1, 10), (2, 20)] hashint None True = Some ?m"
    using r by simp
  ultimately show ?thesis by blast
qed

text \<open>
  Claim C2 as it is written fails: the check reads \<open>elements\<close> before the insertion. After
  \<open>Init(3)\<close> and two Adds the size is 4 and \<open>elements\<close> is 2, and \<open>2 * 2 + 1 < 4\<close> is false.
\<close>

theorem load_factor_strict_bound_fails:
  "generalmapAdd_all (generalmapInit 3 libc_calloc False) [(1, 10), (2, 20)] hashint None True =
     Some \<lparr>size' = 4, elements = 2, keysInt = Some [0, 1, 0, 2], hashes = None,
            values' = Some [0, 10, 0, 20]\<rparr> \<and>
   \<not> 2 * elements \<lparr>size' = 4, elements = 2, keysInt = Some [0, 1, 0, 2], hashes = None,
            values' = Some [0, 10, 0, 20]\<rparr> + 1
     < size' \<lparr>size' = 4, elements = 2, keysInt = Some [0, 1, 0, 2], hashes = None,
            values' = Some [0, 10, 0, 20]\<rparr>"
proof -
  have "generalmapAdd_all (generalmapInit 3 libc_calloc False) [(1, 10), (2, 20)] hashint None True =
     Some \<lparr>size' = 4, elements = 2, keysInt = Some [0, 1, 0, 2], hashes = None,
            values' = Some [0, 10, 0, 20]\<rparr>"
    by code_simp
  then show ?thesis by simp
qed

text \<open>
  Claim C5, for keys that are not zero and values that are not null. On a table reached
  from \<^verbatim>\<open>generalmapInit\<close> by fewer than \<open>2^28\<close> such Adds, one more such Add returns (no
  assertion fails, also when the table grows); the flag it returns is true exactly when a
  matching key was added before; \<open>elements\<close> is unchanged when the flag is true and one
  more when it is false; the key then maps to the new value, and every key that does not
  match maps to what it mapped to before.
\<close>

theorem readd_reports_presence:
  assumes "hash_ok hashf cmp" and "1 \<le> sizeHint" and "sizeHint \<le> 2 ^ 30"
    and "valid_adds valuesF kvs" and "int (length kvs) < 2 ^ 28"
    and "generalmapAdd_all (generalmapInit sizeHint libc_calloc (cmp \<noteq> None)) kvs hashf cmp
           valuesF = Some m"
    and "key \<noteq> 0" and "valuesF \<longrightarrow> value \<noteq> 0"
  shows "\<exists>present m'. generalmapAdd m key value hashf cmp valuesF = Some (present, m') \<and>
           (present \<longleftrightarrow> (\<exists>(k, v) \<in> set kvs. key_eq cmp k key)) \<and>
           elements m' = (if present then elements m else elements m + 1) \<and>
           generalmapMap m' key hashf cmp = Some (if valuesF then value else 1) \<and>
           (\<forall>k. \<not> key_eq cmp key k \<longrightarrow>
                generalmapMap m' k hashf cmp = generalmapMap m k hashf cmp)"
proof -
  note re = reached_table_inv[OF assms(1-6)]
  from Add_Merge_spec(1)[OF assms(1) re(1,2) assms(7,8)] obtain p m' where
    a: "generalmapAdd m key value hashf cmp valuesF = Some (p, m')"
    and inv': "table_inv hashf cmp valuesF m'"
    and p: "p \<longleftrightarrow> table_get cmp m key \<noteq> 0"
    and el: "elements m' = elements m + (if p then 0 else 1)"
    and g: "\<forall>k. table_get cmp m' k =
               (if key_eq cmp key k then (if valuesF then value else 1) else table_get cmp m k)"
    unfolding add_post_def by blast
  have p': "p \<longleftrightarrow> (\<exists>(k, v) \<in> set kvs. key_eq cmp k key)"
    using p re(3)[of key] last_value_nonzero[OF assms(4), of cmp key 0] by simp
  have e': "elements m' = (if p then elements m else elements m + 1)" using el by simp
  have l1: "generalmapMap m' key hashf cmp = Some (if valuesF then value else 1)"
    using Map_spec[OF assms(1) inv', of key] g hash_okD(2)[OF assms(1)] by simp
  have l2: "generalmapMap m' k hashf cmp = generalmapMap m k hashf cmp" if "\<not> key_eq cmp key k" for k
    using Map_spec[OF assms(1) inv', of k] Map_spec[OF assms(1) re(1), of k] g that by simp
  show ?thesis using a p' e' l1 l2 by blast
qed

theorem readd_reports_presence_witness:
  "generalmapAdd_all (generalmapInit 4 libc_calloc False) [(5, 10)] hashint None True =
     Some \<lparr>size' = 4, elements = 1, keysInt = Some [0, 0, 0, 5], hashes = None,
            values' = Some [0, 0, 0, 10]\<rparr> \<and>
   (\<exists>m'. generalmapAdd \<lparr>size' = 4, elements = 1, keysInt = Some [0, 0, 0, 5], hashes = None,
            values' = Some [0, 0, 0, 10]\<rparr> 5 7 hashint None True = Some (True, m') \<and>
      elements m' = 1 \<and> generalmapMap m' 5 hashint None = Some 7) \<and>
   (\<exists>m'. generalmapAdd \<lparr>size' = 4, elements = 1, keysInt = Some [0, 0, 0, 5], hashes = None,
            values' = Some [0, 0, 0, 10]\<rparr> 6 8 hashint None True = Some (False, m') \<and>
      elements m' = 2 \<and> generalmapMap m' 6 hashint None = Some 8)"
proof -
  have r: "generalmapAdd_all (generalmapInit 4 libc_calloc (None \<noteq> (None :: generalmapCmp option)))
      [(5, 10)] hashint None True =
     Some \<lparr>size' = 4, elements = 1, keysInt = Some [0, 0, 0, 5], hashes = None,
            values' = Some [0, 0, 0, 10]\<rparr>"
    by code_simp
  have v: "valid_adds True [(5, 10)]" by (simp add: valid_adds_def)
  let ?m = "\<lparr>size' = 4, elements = 1, keysInt = Some [0, 0, 0, 5], hashes = None,
            values' = Some [0, 0, 0, 10]\<rparr>"
  from readd_reports_presence[OF hash_ok_hashint _ _ v _ r, of 5 7]
  obtain p1 m1 where h1: "generalmapAdd ?m 5 7 hashint None True = Some (p1, m1)"
    "p1 \<longleftrightarrow> (\<exists>(k, v) \<in> set [(5, 10)]. key_eq None k 5)"
    "elements m1 = (if p1 then elements ?m else elements ?m + 1)"
    "generalmapMap m1 5 hashint None = Some 7"
    by auto
  have "p1" using h1(2) by (simp add: key_eq_def)
  then have a: "\<exists>m'. generalmapAdd ?m 5 7 hashint None True = Some (True, m') \<and>
      elements m' = 1 \<and> generalmapMap m' 5 hashint None = Some 7"
    using h1 by simp
  from readd_reports_presence[OF hash_ok_hashint _ _ v _ r, of 6 8]
  obtain p2 m2 where h2: "generalmapAdd ?m 6 8 hashint None True = Some (p2, m2)"
    "p2 \<longleftrightarrow> (\<exists>(k, v) \<in> set [(5, 10)]. key_eq None k 6)"
    "elements m2 = (if p2 then elements ?m else elements ?m + 1)"
    "generalmapMap m2 6 hashint None = Some 8"
    by auto
  have "\<not> p2" using h2(2) by (simp add: key_eq_def)
  then have b: "\<exists>m'. generalmapAdd ?m 6 8 hashint None True = Some (False, m') \<and>
      elements m' = 2 \<and> generalmapMap m' 6 hashint None = Some 8"
    using h2 by simp
  have c: "generalmapAdd_all (generalmapInit 4 libc_calloc False) [(5, 10)] hashint None True =
     Some \<lparr>size' = 4, elements = 1, keysInt = Some [0, 0, 0, 5], hashes = None,
            values' = Some [0, 0, 0, 10]\<rparr>"
    using r by simp
  from a b c show ?thesis by blast
qed

text \<open>
  Claim C5 as it is written fails for a key added with a null value: its slot counts as
  empty, so adding the key again returns false and counts it a second time.
\<close>

theorem readd_after_null_value:
  "generalmapAdd_all (generalmapInit 4 libc_calloc False) [(5, 0)] hashint None True =
     Some \<lparr>size' = 4, elements = 1, keysInt = Some [0, 0, 0, 5], hashes = None,
            values' = Some [0, 0, 0, 0]\<rparr> \<and>
   generalmapAdd \<lparr>size' = 4, elements = 1, keysInt = Some [0, 0, 0, 5], hashes = None,
       values' = Some [0, 0, 0, 0]\<rparr> 5 7 hashint None True =
     Some (False, \<lparr>size' = 4, elements = 2, keysInt = Some [0, 0, 0, 5], hashes = None,
       values' = Some [0, 0, 0, 7]\<rparr>)"
proof -
  have "generalmapAdd_all (generalmapInit 4 libc_calloc False) [(5, 0)] hashint None True =
     Some \<lparr>size' = 4, elements = 1, keysInt = Some [0, 0, 0, 5], hashes = None,
            values' = Some [0, 0, 0, 0]\<rparr>"
    by code_simp
  moreover have "generalmapAdd \<lparr>size' = 4, elements = 1, keysInt = Some [0, 0, 0, 5], hashes = None,
       values' = Some [0, 0, 0, 0]\<rparr> 5 7 hashint None True =
     Some (False, \<lparr>size' = 4, elements = 2, keysInt = Some [0, 0, 0, 5], hashes = None,
       values' = Some [0, 0, 0, 7]\<rparr>)"
    by code_simp
  ultimately show ?thesis by simp
qed

section \<open>The key zero\<close>

text \<open>
  Claim C3, at the key \<open>0\<close> of an integer map. \<^verbatim>\<open>generalmapMerge\<close> skips the slots whose key
  is \<open>0\<close>, and growth merges the table into the new one. Before the third Add the key \<open>0\<close>
  maps to 7 in a table of size 4 with 2 elements; the third Add grows the table to size 8,
  and then the key \<open>0\<close> maps to null and \<open>elements\<close> is 2 after three Adds of different keys.
\<close>

theorem growth_drops_key_zero:
  "do { (_, m1) \<leftarrow> intmapAdd (intmapInit 4 libc_calloc) 0 7;
        (_, m2) \<leftarrow> intmapAdd m1 1 8;
        (_, m3) \<leftarrow> intmapAdd m2 2 9;
        Some (intmapMap m2 0, size' m2, elements m2, intmapMap m3 0, size' m3, elements m3) } =
   Some (Some 7, 4, 2, Some 0, 8, 2)"
  by code_simp

text \<open>
  Claim C4, at the key \<open>0\<close>: the source maps \<open>0\<close> to 7 in a slot with a value, and after
  \<^verbatim>\<open>intmapMerge\<close> into an empty table the destination maps \<open>0\<close> to null and has no element.
\<close>

theorem merge_skips_key_zero:
  "do { (_, src) \<leftarrow> intmapAdd (intmapInit 4 libc_calloc) 0 7;
        dest \<leftarrow> intmapMerge (intmapInit 4 libc_calloc) src;
        Some (intmapMap src 0, intmapMap dest 0, elements dest) } =
   Some (Some 7, Some 0, 0)"
  by code_simp

text \<open>
  Claim C6, on a table with no Add: \<^verbatim>\<open>generalmapTest\<close> compares the key of the slot where
  \<^verbatim>\<open>generalmapFind\<close> stopped without looking at its value, and the key of an empty slot is
  \<open>0\<close>: the integer \<open>0\<close> is reported as an element of a new set.
\<close>

theorem test_reports_zero_in_fresh_set:
  "intsetTest (intsetInit 4 libc_calloc) 0 = Some True \<and>
   intsetTest (intsetInit 4 libc_calloc) 5 = Some False"
  by code_simp

section \<open>Release\<close>

text \<open>
  Claim C10, with the fields that \<^verbatim>\<open>generalmapFree\<close> writes. It releases the blocks of the
  keys, of the hashes (when the table has them) and of the values, and leaves the three
  pointers null; \<open>size'\<close> and \<open>elements\<close> keep the values they had. Called again on the
  table it left, it releases nothing and changes nothing, and so it does on a table whose
  fields are all zero.
\<close>

theorem generalmapFree_again:
  "keysInt (fst (generalmapFree m h)) = None \<and>
   hashes (fst (generalmapFree m h)) = None \<and>
   values' (fst (generalmapFree m h)) = None \<and>
   size' (fst (generalmapFree m h)) = size' m \<and>
   elements (fst (generalmapFree m h)) = elements m \<and>
   snd (generalmapFree \<lparr>size' = s, elements = e, keysInt = Some ks, hashes = Some hs,
          values' = Some vs\<rparr> True) = [ks, hs, vs] \<and>
   snd (generalmapFree \<lparr>size' = s, elements = e, keysInt = Some ks, hashes = None,
          values' = Some vs\<rparr> False) = [ks, vs] \<and>
   generalmapFree (fst (generalmapFree m h)) h' = (fst (generalmapFree m h), []) \<and>
   generalmapFree \<lparr>size' = 0, elements = 0, keysInt = None, hashes = None, values' = None\<rparr> h =
     (\<lparr>size' = 0, elements = 0, keysInt = None, hashes = None, values' = None\<rparr>, [])"
  by (simp add: generalmapFree_def free_def Let_def)

text \<open>
  Claim C10 as it is written fails: \<^verbatim>\<open>generalmapFree\<close> does not set \<open>size'\<close> and \<open>elements\<close>
  to zero. An integer map created with size 4 that holds one key has size 4 and one
  element after it is freed, and \<^verbatim>\<open>mapNull\<close> is false for it.
\<close>

theorem generalmapFree_keeps_counts:
  "generalmapAdd_all (generalmapInit 4 libc_calloc False) [(5, 10)] hashint None True =
     Some \<lparr>size' = 4, elements = 1, keysInt = Some [0, 0, 0, 5], hashes = None,
            values' = Some [0, 0, 0, 10]\<rparr> \<and>
   generalmapFree \<lparr>size' = 4, elements = 1, keysInt = Some [0, 0, 0, 5], hashes = None,
       values' = Some [0, 0, 0, 10]\<rparr> False =
     (\<lparr>size' = 4, elements = 1, keysInt = None, hashes = None, values' = None\<rparr>,
      [[0, 0, 0, 5], [0, 0, 0, 10]]) \<and>
   size' (fst (generalmapFree \<lparr>size' = 4, elements = 1, keysInt = Some [0, 0, 0, 5],
       hashes = None, values' = Some [0, 0, 0, 10]\<rparr> False)) \<noteq> 0 \<and>
   elements (fst (generalmapFree \<lparr>size' = 4, elements = 1, keysInt = Some [0, 0, 0, 5],
       hashes = None, values' = Some [0, 0, 0, 10]\<rparr> False)) \<noteq> 0 \<and>
   \<not> mapNull (fst (generalmapFree \<lparr>size' = 4, elements = 1, keysInt = Some [0, 0, 0, 5],
       hashes = None, values' = Some [0, 0, 0, 10]\<rparr> False))"
proof -
  have "generalmapAdd_all (generalmapInit 4 libc_calloc False) [(5, 10)] hashint None True =
     Some \<lparr>size' = 4, elements = 1, keysInt = Some [0, 0, 0, 5], hashes = None,
            values' = Some [0, 0, 0, 10]\<rparr>"
    by code_simp
  then show ?thesis by (simp add: generalmapFree_def free_def mapNull_def Let_def)
qed

end
